theory Spec2Isabelle
  imports Main
begin

section \<open>Strings and Python's \<open>int()\<close>\<close>

text \<open>
  A string is a list of 8-bit characters, read as the code points U+0000 to U+00FF.
  \<open>lower\<close> is \<open>str.lower\<close> on these: the letters A to Z and the capital letters
  U+00C0 to U+00DE (the multiplication sign U+00D7 apart) move up by 32, everything else
  stays.
\<close>

definition lower_char :: "char \<Rightarrow> char" where
  "lower_char c =
     (case map_of
        (zip (''ABCDEFGHIJKLMNOPQRSTUVWXYZ'' @
              [CHR 0xC0, CHR 0xC1, CHR 0xC2, CHR 0xC3, CHR 0xC4, CHR 0xC5, CHR 0xC6, CHR 0xC7,
               CHR 0xC8, CHR 0xC9, CHR 0xCA, CHR 0xCB, CHR 0xCC, CHR 0xCD, CHR 0xCE, CHR 0xCF,
               CHR 0xD0, CHR 0xD1, CHR 0xD2, CHR 0xD3, CHR 0xD4, CHR 0xD5, CHR 0xD6,
               CHR 0xD8, CHR 0xD9, CHR 0xDA, CHR 0xDB, CHR 0xDC, CHR 0xDD, CHR 0xDE])
             (''abcdefghijklmnopqrstuvwxyz'' @
              [CHR 0xE0, CHR 0xE1, CHR 0xE2, CHR 0xE3, CHR 0xE4, CHR 0xE5, CHR 0xE6, CHR 0xE7,
               CHR 0xE8, CHR 0xE9, CHR 0xEA, CHR 0xEB, CHR 0xEC, CHR 0xED, CHR 0xEE, CHR 0xEF,
               CHR 0xF0, CHR 0xF1, CHR 0xF2, CHR 0xF3, CHR 0xF4, CHR 0xF5, CHR 0xF6,
               CHR 0xF8, CHR 0xF9, CHR 0xFA, CHR 0xFB, CHR 0xFC, CHR 0xFD, CHR 0xFE])) c of
        None \<Rightarrow> c
      | Some l \<Rightarrow> l)"

definition lower :: "string \<Rightarrow> string" where
  "lower s = map lower_char s"

definition endswith :: "string \<Rightarrow> char \<Rightarrow> bool" where
  "endswith s c = (s \<noteq> [] \<and> last s = c)"

text \<open>
  \<open>int(s)\<close> on a string, base 10. CPython first turns every character above U+007F
  that is Unicode whitespace into a space (U+0085 and U+00A0 here; any other character
  above U+007F makes the conversion fail, none of them being a decimal digit), then skips
  the C whitespace (tab, line feed, vertical tab, form feed, carriage return, space) on
  both sides; so these eight characters are what is stripped, and U+001C to U+001F are
  not. One sign is allowed, then decimal digits, where a single underscore may stand
  between two digits. More than \<open>int_max_str_digits\<close> digits (the interpreter's default,
  4300) are refused. Every failure raises ValueError, which is \<open>None\<close> here.
\<close>

definition isspace :: "char \<Rightarrow> bool" where
  "isspace c = (c \<in> set [CHR 0x09, CHR 0x0A, CHR 0x0B, CHR 0x0C, CHR 0x0D, CHR '' '',
                          CHR 0x85, CHR 0xA0])"

definition strip :: "string \<Rightarrow> string" where
  "strip s = rev (dropWhile isspace (rev (dropWhile isspace s)))"

definition digit_val :: "char \<Rightarrow> nat option" where
  "digit_val c = map_of (zip ''0123456789'' [0, 1, 2, 3, 4, 5, 6, 7, 8, 9]) c"

fun parse_digits :: "nat \<Rightarrow> string \<Rightarrow> nat option" where
  "parse_digits acc [] = Some acc"
| "parse_digits acc [c] =
     (case digit_val c of None \<Rightarrow> None | Some v \<Rightarrow> Some (10 * acc + v))"
| "parse_digits acc (c # d # ds) =
     (if c = CHR ''_'' then
        (case digit_val d of None \<Rightarrow> None | Some v \<Rightarrow> parse_digits (10 * acc + v) ds)
      else
        (case digit_val c of None \<Rightarrow> None | Some v \<Rightarrow> parse_digits (10 * acc + v) (d # ds)))"

definition parse_unsigned :: "string \<Rightarrow> nat option" where
  "parse_unsigned s =
     (case s of
        [] \<Rightarrow> None
      | c # cs \<Rightarrow> (case digit_val c of None \<Rightarrow> None | Some v \<Rightarrow> parse_digits v cs))"

definition int_max_str_digits :: nat where
  "int_max_str_digits = 4300"

definition count_digits :: "string \<Rightarrow> nat" where
  "count_digits s = length (filter (\<lambda>c. digit_val c \<noteq> None) s)"

definition parse_limited :: "string \<Rightarrow> nat option" where
  "parse_limited s = (if int_max_str_digits < count_digits s then None else parse_unsigned s)"

definition py_int :: "string \<Rightarrow> int option" where
  "py_int s =
     (case strip s of
        [] \<Rightarrow> None
      | c # cs \<Rightarrow>
          if c = CHR ''-'' then map_option (\<lambda>n. - int n) (parse_limited cs)
          else if c = CHR ''+'' then map_option int (parse_limited cs)
          else map_option int (parse_limited (c # cs)))"

section \<open>Durations\<close>

text \<open>
  \<open>parse_duration\<close> returns \<open>float('inf')\<close>, an integer number of seconds, or \<open>None\<close>
  (the ValueError of \<open>int()\<close> caught).
\<close>

datatype duration = Infinite | Seconds int

definition parse_duration :: "string \<Rightarrow> duration option" where
  "parse_duration duration_str =
     (if lower duration_str = ''inf'' \<or> lower duration_str = ''infinite'' then Some Infinite
      else if endswith duration_str (CHR ''m'') then
        map_option (\<lambda>n. Seconds (n * 60)) (py_int (butlast duration_str))
      else if endswith duration_str (CHR ''h'') then
        map_option (\<lambda>n. Seconds (n * 3600)) (py_int (butlast duration_str))
      else if endswith duration_str (CHR ''d'') then
        map_option (\<lambda>n. Seconds (n * 86400)) (py_int (butlast duration_str))
      else map_option (\<lambda>n. Seconds (n * 60)) (py_int duration_str))"

text \<open>The decimal numeral of a natural number, as \<open>str(n)\<close> prints it.\<close>

definition digit_char :: "nat \<Rightarrow> char" where
  "digit_char d = ''0123456789'' ! d"

fun str_nat :: "nat \<Rightarrow> string" where
  "str_nat n = (if n < 10 then [digit_char n] else str_nat (n div 10) @ [digit_char (n mod 10)])"

declare str_nat.simps [simp del]

text \<open>
  For the statements about \<open>parse_duration\<close>. The number a string of decimal digits
  denotes. The integer literals, described by their shape and not by a parser: after
  the whitespace on both sides and one sign are taken off, what is left is not empty, is
  made of digits and underscores, neither starts nor ends with an underscore, has no two
  underscores in a row, and has at most \<open>int_max_str_digits\<close> digits. The part of a
  duration string that is handed to \<open>int()\<close>: all of it, or all but the unit. The
  characters that can occur in an integer literal at all.
\<close>

definition dec_value :: "string \<Rightarrow> nat" where
  "dec_value ds = foldl (\<lambda>a c. 10 * a + (case digit_val c of None \<Rightarrow> 0 | Some v \<Rightarrow> v)) 0 ds"

fun no_double_underscore :: "string \<Rightarrow> bool" where
  "no_double_underscore (c # d # cs) =
     (\<not> (c = CHR ''_'' \<and> d = CHR ''_'') \<and> no_double_underscore (d # cs))"
| "no_double_underscore cs = True"

definition unsigned_part :: "string \<Rightarrow> string" where
  "unsigned_part s =
     (case strip s of
        [] \<Rightarrow> []
      | c # cs \<Rightarrow> if c = CHR ''-'' \<or> c = CHR ''+'' then cs else c # cs)"

definition int_literal :: "string \<Rightarrow> bool" where
  "int_literal s =
     (unsigned_part s \<noteq> [] \<and>
      list_all (\<lambda>c. digit_val c \<noteq> None \<or> c = CHR ''_'') (unsigned_part s) \<and>
      hd (unsigned_part s) \<noteq> CHR ''_'' \<and> last (unsigned_part s) \<noteq> CHR ''_'' \<and>
      no_double_underscore (unsigned_part s) \<and>
      count_digits (unsigned_part s) \<le> int_max_str_digits)"

definition numeric_part :: "string \<Rightarrow> string" where
  "numeric_part s =
     (if endswith s (CHR ''m'') \<or> endswith s (CHR ''h'') \<or> endswith s (CHR ''d'')
      then butlast s else s)"

definition numeric_char :: "char \<Rightarrow> bool" where
  "numeric_char c = (digit_val c \<noteq> None \<or> c = CHR ''_'' \<or> c = CHR ''+'' \<or> c = CHR ''-'' \<or> isspace c)"


section \<open>Members, roles and the permission checks\<close>

text \<open>
  The role identifiers come from the environment, so they are parameters. A member is
  what the checks read of it: its id and the ids of its roles. A role is its id.
\<close>

record config =
  ADMIN_ROLE_ID :: int
  ESSENTIAL_ROLE_ID :: int
  PRIME_ROLE_ID :: int

record member =
  user_id :: int
  roles :: "int list"

record ctx =
  author :: member
  guild :: "int list"

definition is_admin :: "config \<Rightarrow> member \<Rightarrow> bool" where
  "is_admin cfg user = list_ex (\<lambda>role. role = ADMIN_ROLE_ID cfg) (roles user)"

definition has_essential_role :: "config \<Rightarrow> member \<Rightarrow> bool" where
  "has_essential_role cfg user = list_ex (\<lambda>role. role = ESSENTIAL_ROLE_ID cfg) (roles user)"

definition has_prime_role :: "config \<Rightarrow> member \<Rightarrow> bool" where
  "has_prime_role cfg user = list_ex (\<lambda>role. role = PRIME_ROLE_ID cfg) (roles user)"

definition get_role :: "ctx \<Rightarrow> int \<Rightarrow> int option" where
  "get_role c role_id = (if role_id \<in> set (guild c) then Some role_id else None)"

section \<open>The state: permits, timeouts and the event loop's tasks\<close>

text \<open>
  \<open>permitted_users\<close> and \<open>user_timeouts\<close> are the two globals of the program. A task of
  the event loop is a coroutine with its arguments, sleeping until \<open>wake_at\<close>; its handle
  is its position in \<open>tasks\<close>. The role backend is Discord: \<open>backend_calls\<close> lists the
  calls made to it and \<open>guild_roles\<close> the (user, role) pairs it holds. \<open>now\<close> is the clock,
  in seconds.
\<close>

datatype coroutine = Remove_role member int | Remove_permit int

datatype task_status = Sleeping | Cancelled | Finished

record task =
  coro :: coroutine
  wake_at :: int
  status :: task_status

datatype discord_error = Forbidden | NotFound | HTTPException

datatype backend_call = Add_roles int int | Remove_roles int int

datatype log_entry =
    Info_removed_role int int
  | Warning_user_not_found int
  | Error_removing_role int discord_error
  | Info_removed_permit int
  | Task_exception discord_error

datatype reply =
    Access_Denied
  | Invalid_Plan
  | Invalid_Duration
  | Role_Not_Found
  | User_Whitelisted string
  | Permission_Error
  | Permission_Granted string
  | Permission_Revoked
  | Not_Permitted

record state =
  now :: int
  permitted_users :: "int set"
  user_timeouts :: "int \<rightharpoonup> nat"
  tasks :: "task list"
  guild_roles :: "(int \<times> int) set"
  backend_calls :: "backend_call list"
  log :: "log_entry list"

definition initial :: state where
  "initial = \<lparr>now = 0, permitted_users = {}, user_timeouts = Map.empty, tasks = [],
     guild_roles = {}, backend_calls = [], log = []\<rparr>"

definition is_permitted :: "config \<Rightarrow> state \<Rightarrow> member \<Rightarrow> bool" where
  "is_permitted cfg s user =
     (is_admin cfg user \<or> has_essential_role cfg user \<or> has_prime_role cfg user \<or>
      user_id user \<in> permitted_users s)"

text \<open>
  \<open>asyncio.create_task\<close> of a coroutine that first sleeps \<open>duration\<close> seconds, and
  \<open>Task.cancel\<close>, which only reaches a task still asleep.
\<close>

definition create_task :: "coroutine \<Rightarrow> int \<Rightarrow> state \<Rightarrow> nat \<times> state" where
  "create_task c duration s =
     (length (tasks s),
      s\<lparr>tasks := tasks s @ [\<lparr>coro = c, wake_at = now s + duration, status = Sleeping\<rparr>]\<rparr>)"

definition cancel :: "nat \<Rightarrow> state \<Rightarrow> state" where
  "cancel h s =
     (if h < length (tasks s) \<and> status (tasks s ! h) = Sleeping
      then s\<lparr>tasks := (tasks s)[h := (tasks s ! h)\<lparr>status := Cancelled\<rparr>]\<rparr>
      else s)"

section \<open>The commands\<close>

text \<open>
  Each command returns the embed it sends and the new state. \<open>add_result\<close> is what
  \<open>user.add_roles\<close> does: \<open>None\<close> when it succeeds, the exception otherwise; an
  exception other than Forbidden leaves \<open>whitelist\<close> uncaught (\<open>Inl\<close>).
\<close>

definition whitelist ::
  "config \<Rightarrow> ctx \<Rightarrow> member \<Rightarrow> string \<Rightarrow> string \<Rightarrow> discord_error option \<Rightarrow> state \<Rightarrow>
   (discord_error + reply) \<times> state" where
  "whitelist cfg c user duration plan add_result s =
     (if \<not> is_admin cfg (author c) then (Inr Access_Denied, s)
      else if lower plan \<notin> set [''essential'', ''prime''] then (Inr Invalid_Plan, s)
      else
        (case parse_duration duration of
           None \<Rightarrow> (Inr Invalid_Duration, s)
         | Some duration_seconds \<Rightarrow>
             (case get_role c (if lower plan = ''essential'' then ESSENTIAL_ROLE_ID cfg
                               else PRIME_ROLE_ID cfg) of
                None \<Rightarrow> (Inr Role_Not_Found, s)
              | Some role \<Rightarrow>
                  (let s1 = s\<lparr>backend_calls := backend_calls s @ [Add_roles (user_id user) role]\<rparr>
                   in case add_result of
                        Some Forbidden \<Rightarrow> (Inr Permission_Error, s1)
                      | Some e \<Rightarrow> (Inl e, s1)
                      | None \<Rightarrow>
                          (let s2 = s1\<lparr>guild_roles := insert (user_id user, role) (guild_roles s1)\<rparr>
                           in case duration_seconds of
                                Seconds d \<Rightarrow>
                                  (let (h, s3) = create_task (Remove_role user role) d s2
                                   in (Inr (User_Whitelisted duration),
                                       s3\<lparr>user_timeouts := (user_timeouts s3)(user_id user \<mapsto> h)\<rparr>))
                              | Infinite \<Rightarrow> (Inr (User_Whitelisted ''permanent''), s2))))))"

definition permit :: "config \<Rightarrow> ctx \<Rightarrow> member \<Rightarrow> string \<Rightarrow> state \<Rightarrow> reply \<times> state" where
  "permit cfg c user duration s =
     (if \<not> is_admin cfg (author c) then (Access_Denied, s)
      else
        (case parse_duration duration of
           None \<Rightarrow> (Invalid_Duration, s)
         | Some duration_seconds \<Rightarrow>
             (let s1 = s\<lparr>permitted_users := insert (user_id user) (permitted_users s)\<rparr>
              in case duration_seconds of
                   Seconds d \<Rightarrow>
                     (let (h, s2) = create_task (Remove_permit (user_id user)) d s1
                      in (Permission_Granted duration,
                          s2\<lparr>user_timeouts := (user_timeouts s2)(user_id user \<mapsto> h)\<rparr>))
                 | Infinite \<Rightarrow> (Permission_Granted ''permanent'', s1))))"

definition unpermit :: "config \<Rightarrow> ctx \<Rightarrow> member \<Rightarrow> state \<Rightarrow> reply \<times> state" where
  "unpermit cfg c user s =
     (if \<not> is_admin cfg (author c) then (Access_Denied, s)
      else if user_id user \<in> permitted_users s then
        (let s1 = s\<lparr>permitted_users := permitted_users s - {user_id user}\<rparr>
         in (Permission_Revoked,
             (case user_timeouts s1 (user_id user) of
                None \<Rightarrow> s1
              | Some h \<Rightarrow> (cancel h s1)\<lparr>user_timeouts := (user_timeouts s1)(user_id user := None)\<rparr>)))
      else (Not_Permitted, s))"

section \<open>The expiry coroutines\<close>

text \<open>
  The bodies that run once the sleep is over. \<open>remove_result\<close> is what
  \<open>user.remove_roles\<close> does. The result is \<open>Inl\<close> when an exception leaves the coroutine.
\<close>

definition remove_role_after_timeout ::
  "member \<Rightarrow> int \<Rightarrow> discord_error option \<Rightarrow> state \<Rightarrow> discord_error + state" where
  "remove_role_after_timeout user role remove_result s =
     (let s0 = s\<lparr>backend_calls := backend_calls s @ [Remove_roles (user_id user) role]\<rparr>;
          tried =
            (case remove_result of
               None \<Rightarrow>
                 Inr (s0\<lparr>guild_roles := guild_roles s0 - {(user_id user, role)},
                         log := log s0 @ [Info_removed_role (user_id user) role]\<rparr>)
             | Some e \<Rightarrow> Inl e);
          handled =
            (case tried of
               Inr s1 \<Rightarrow> Inr s1
             | Inl NotFound \<Rightarrow> Inr (s0\<lparr>log := log s0 @ [Warning_user_not_found (user_id user)]\<rparr>)
             | Inl e \<Rightarrow> Inr (s0\<lparr>log := log s0 @ [Error_removing_role (user_id user) e]\<rparr>))
      in map_sum id (\<lambda>s2. s2\<lparr>user_timeouts := (user_timeouts s2)(user_id user := None)\<rparr>) handled)"

definition remove_permit_after_timeout :: "int \<Rightarrow> state \<Rightarrow> discord_error + state" where
  "remove_permit_after_timeout uid s =
     (let s1 = s\<lparr>permitted_users := permitted_users s - {uid},
                 log := log s @ [Info_removed_permit uid]\<rparr>
      in Inr (s1\<lparr>user_timeouts := (user_timeouts s1)(uid := None)\<rparr>))"

section \<open>The event loop\<close>

text \<open>
  \<open>fire\<close> wakes a task whose sleep is over and runs its body; a task that was cancelled
  or has finished is not run again. An exception leaving a task is kept by the loop, which
  goes on. An event is a command received, time passing, or a task waking.
\<close>

definition fire :: "nat \<Rightarrow> discord_error option \<Rightarrow> state \<Rightarrow> state" where
  "fire h remove_result s =
     (if h < length (tasks s) \<and> status (tasks s ! h) = Sleeping \<and> wake_at (tasks s ! h) \<le> now s
      then
        (let s1 = s\<lparr>tasks := (tasks s)[h := (tasks s ! h)\<lparr>status := Finished\<rparr>]\<rparr>
         in case (case coro (tasks s ! h) of
                    Remove_role user role \<Rightarrow> remove_role_after_timeout user role remove_result s1
                  | Remove_permit uid \<Rightarrow> remove_permit_after_timeout uid s1) of
              Inr s2 \<Rightarrow> s2
            | Inl e \<Rightarrow> s1\<lparr>log := log s1 @ [Task_exception e]\<rparr>)
      else s)"

datatype event =
    Whitelist ctx member string string "discord_error option"
  | Permit ctx member string
  | Unpermit ctx member
  | Tick nat
  | Fire nat "discord_error option"

fun step :: "config \<Rightarrow> state \<Rightarrow> event \<Rightarrow> state" where
  "step cfg s (Whitelist c user duration plan add_result) =
     snd (whitelist cfg c user duration plan add_result s)"
| "step cfg s (Permit c user duration) = snd (permit cfg c user duration s)"
| "step cfg s (Unpermit c user) = snd (unpermit cfg c user s)"
| "step cfg s (Tick dt) = s\<lparr>now := now s + int dt\<rparr>"
| "step cfg s (Fire h remove_result) = fire h remove_result s"

definition run :: "config \<Rightarrow> state \<Rightarrow> event list \<Rightarrow> state" where
  "run cfg s evs = foldl (step cfg) s evs"

text \<open>
  The user a coroutine was created for, and the events that concern a user in a state:
  a command on that user, or the waking of a task created for that user.
\<close>

fun task_user :: "coroutine \<Rightarrow> int" where
  "task_user (Remove_role user role) = user_id user"
| "task_user (Remove_permit uid) = uid"

fun concerns :: "int \<Rightarrow> state \<Rightarrow> event \<Rightarrow> bool" where
  "concerns uid s (Whitelist c user duration plan add_result) = (user_id user = uid)"
| "concerns uid s (Permit c user duration) = (user_id user = uid)"
| "concerns uid s (Unpermit c user) = (user_id user = uid)"
| "concerns uid s (Tick dt) = False"
| "concerns uid s (Fire h remove_result) =
     (h < length (tasks s) \<and> task_user (coro (tasks s ! h)) = uid)"

fun undisturbed :: "config \<Rightarrow> int \<Rightarrow> state \<Rightarrow> event list \<Rightarrow> bool" where
  "undisturbed cfg uid s [] = True"
| "undisturbed cfg uid s (ev # evs) =
     (\<not> concerns uid s ev \<and> undisturbed cfg uid (step cfg s ev) evs)"

text \<open>
  Two invariants of the runs. Every handle stored in \<open>user_timeouts\<close> is the handle of a
  task of the loop. A user \<open>holds\<close> a timer when the user is permitted, the entry of the
  user is the handle of a sleeping task created for that user, and no other user's entry
  is that handle.
\<close>

definition handles_valid :: "state \<Rightarrow> bool" where
  "handles_valid s = (\<forall>u h. user_timeouts s u = Some h \<longrightarrow> h < length (tasks s))"

definition holds_timer :: "int \<Rightarrow> nat \<Rightarrow> state \<Rightarrow> bool" where
  "holds_timer uid h s =
     (uid \<in> permitted_users s \<and> user_timeouts s uid = Some h \<and> h < length (tasks s) \<and>
      status (tasks s ! h) = Sleeping \<and> task_user (coro (tasks s ! h)) = uid \<and>
      handles_valid s \<and> (\<forall>u. user_timeouts s u = Some h \<longrightarrow> u = uid))"

section \<open>An example guild\<close>

text \<open>A configuration, an administrator and two members, for the concrete runs below.\<close>

definition cfg0 :: config where
  "cfg0 = \<lparr>ADMIN_ROLE_ID = 1, ESSENTIAL_ROLE_ID = 2, PRIME_ROLE_ID = 3\<rparr>"

definition admin0 :: ctx where
  "admin0 = \<lparr>author = \<lparr>user_id = 100, roles = [1]\<rparr>, guild = [1, 2, 3]\<rparr>"

definition guest0 :: ctx where
  "guest0 = \<lparr>author = \<lparr>user_id = 200, roles = []\<rparr>, guild = [1, 2, 3]\<rparr>"

definition alice :: member where
  "alice = \<lparr>user_id = 7, roles = []\<rparr>"

definition bob :: member where
  "bob = \<lparr>user_id = 8, roles = [3]\<rparr>"

text \<open>
  The state five minutes after an administrator whitelisted alice for \<open>5m\<close> on the prime
  plan: her role timer is due.
\<close>

definition whitelisted0 :: state where
  "whitelisted0 = run cfg0 initial [Whitelist admin0 alice ''5m'' ''prime'' None, Tick 300]"

section \<open>Parsing decimal numerals\<close>

lemma digit_val_SomeD:
  "digit_val c = Some v \<Longrightarrow>
   c = CHR ''0'' \<or> c = CHR ''1'' \<or> c = CHR ''2'' \<or> c = CHR ''3'' \<or> c = CHR ''4'' \<or>
   c = CHR ''5'' \<or> c = CHR ''6'' \<or> c = CHR ''7'' \<or> c = CHR ''8'' \<or> c = CHR ''9''"
  by (simp add: digit_val_def split: if_splits)

lemma digit_val_digit_char: "d < 10 \<Longrightarrow> digit_val (digit_char d) = Some d"
proof -
  assume "d < 10"
  then have "d = 0 \<or> d = 1 \<or> d = 2 \<or> d = 3 \<or> d = 4 \<or> d = 5 \<or> d = 6 \<or> d = 7
    \<or> d = 8 \<or> d = 9" by arith
  then show ?thesis by (elim disjE) (simp_all add: digit_val_def digit_char_def)
qed

lemma digit_not_space: "digit_val c = Some v \<Longrightarrow> \<not> isspace c"
  by (drule digit_val_SomeD, elim disjE) (simp_all add: isspace_def)

lemma digit_not_sign:
  "digit_val c = Some v \<Longrightarrow> c \<noteq> CHR ''_'' \<and> c \<noteq> CHR ''-'' \<and> c \<noteq> CHR ''+''"
  by (drule digit_val_SomeD, elim disjE) simp_all

lemma digit_not_letter:
  "digit_val c = Some v \<Longrightarrow>
   c \<noteq> CHR ''m'' \<and> c \<noteq> CHR ''h'' \<and> c \<noteq> CHR ''d'' \<and> c \<noteq> CHR ''i''"
  by (drule digit_val_SomeD, elim disjE) simp_all

lemma digit_lower: "digit_val c = Some v \<Longrightarrow> lower_char c = c"
  by (drule digit_val_SomeD, elim disjE) (simp_all add: lower_char_def)


lemma parse_digits_digits:
  "\<forall>c\<in>set ds. digit_val c \<noteq> None \<Longrightarrow>
   parse_digits acc ds =
     Some (foldl (\<lambda>a c. 10 * a + (case digit_val c of None \<Rightarrow> 0 | Some v \<Rightarrow> v)) acc ds)"
proof (induction acc ds rule: parse_digits.induct)
  case (1 acc)
  then show ?case by simp
next
  case (2 acc c)
  then obtain v where "digit_val c = Some v" by auto
  then show ?case by simp
next
  case (3 acc c d ds)
  from "3.prems" obtain v where v: "digit_val c = Some v" by auto
  then have ne: "c \<noteq> CHR ''_''" using digit_not_sign by blast
  from "3.prems" have rest: "\<forall>x\<in>set (d # ds). digit_val x \<noteq> None" by simp
  have "parse_digits acc (c # d # ds) = parse_digits (10 * acc + v) (d # ds)"
    using ne v by simp
  also have "\<dots> = Some (foldl (\<lambda>a c. 10 * a + (case digit_val c of None \<Rightarrow> 0 | Some v \<Rightarrow> v))
      (10 * acc + v) (d # ds))"
    using "3.IH"(2) [OF ne v rest] .
  finally show ?case using v by simp
qed

lemma parse_digits_bad:
  "c \<in> set ds \<Longrightarrow> digit_val c = None \<Longrightarrow> c \<noteq> CHR ''_'' \<Longrightarrow> parse_digits acc ds = None"
proof (induction acc ds rule: parse_digits.induct)
  case (1 acc)
  then show ?case by simp
next
  case (2 acc x)
  then show ?case by simp
next
  case (3 acc x d ds)
  show ?case
  proof (cases "x = CHR ''_''")
    case True
    show ?thesis
    proof (cases "digit_val d")
      case None
      with True show ?thesis by simp
    next
      case (Some v)
      with "3.prems" True have "c \<in> set ds" by auto
      from "3.IH"(1) [OF True Some this "3.prems"(2,3)] True Some show ?thesis by simp
    qed
  next
    case False
    show ?thesis
    proof (cases "digit_val x")
      case None
      with False show ?thesis by simp
    next
      case (Some v)
      with "3.prems" have "c \<in> set (d # ds)" by auto
      from "3.IH"(2) [OF False Some this "3.prems"(2,3)] False Some show ?thesis by simp
    qed
  qed
qed

lemma parse_unsigned_bad:
  assumes "c \<in> set ds" and "digit_val c = None" and "c \<noteq> CHR ''_''"
  shows "parse_unsigned ds = None"
proof (cases ds)
  case Nil
  then show ?thesis by (simp add: parse_unsigned_def)
next
  case (Cons x xs)
  show ?thesis
  proof (cases "digit_val x")
    case None
    with Cons show ?thesis by (simp add: parse_unsigned_def)
  next
    case (Some v)
    with assms Cons have "c \<in> set xs" by auto
    then have "parse_digits v xs = None" using assms(2,3) by (rule parse_digits_bad)
    with Cons Some show ?thesis by (simp add: parse_unsigned_def)
  qed
qed

lemma parse_unsigned_digits:
  assumes "ds \<noteq> []" and "\<forall>c\<in>set ds. digit_val c \<noteq> None"
  shows "parse_unsigned ds = Some (dec_value ds)"
proof (cases ds)
  case Nil
  with assms show ?thesis by simp
next
  case (Cons c cs)
  with assms obtain v where v: "digit_val c = Some v" by auto
  from Cons assms have "\<forall>x\<in>set cs. digit_val x \<noteq> None" by simp
  then show ?thesis using Cons v
    by (simp add: parse_unsigned_def dec_value_def parse_digits_digits)
qed

lemma count_digits_digits: "\<forall>c\<in>set ds. digit_val c \<noteq> None \<Longrightarrow> count_digits ds = length ds"
  by (simp add: count_digits_def)

lemma parse_limited_digits:
  assumes "ds \<noteq> []" and "\<forall>c\<in>set ds. digit_val c \<noteq> None"
  shows "parse_limited ds = (if int_max_str_digits < length ds then None else Some (dec_value ds))"
  using assms by (simp add: parse_limited_def count_digits_digits parse_unsigned_digits)

lemma parse_limited_bad:
  assumes "c \<in> set ds" and "digit_val c = None" and "c \<noteq> CHR ''_''"
  shows "parse_limited ds = None"
  using parse_unsigned_bad [OF assms] by (simp add: parse_limited_def)

lemma dropWhile_keeps: "c \<in> set xs \<Longrightarrow> \<not> P c \<Longrightarrow> c \<in> set (dropWhile P xs)"
  by (induction xs) auto

lemma strip_keeps:
  assumes "c \<in> set s" and "\<not> isspace c"
  shows "c \<in> set (strip s)"
proof -
  from assms have "c \<in> set (rev (dropWhile isspace s))" by (simp add: dropWhile_keeps)
  then have "c \<in> set (dropWhile isspace (rev (dropWhile isspace s)))"
    using assms(2) by (rule dropWhile_keeps)
  then show ?thesis by (simp add: strip_def)
qed

lemma strip_id:
  assumes "s \<noteq> []" and "\<not> isspace (hd s)" and "\<not> isspace (last s)"
  shows "strip s = s"
proof -
  from assms have a: "dropWhile isspace s = s" by (cases s) auto
  from assms have "rev s \<noteq> []" and "\<not> isspace (hd (rev s))" by (simp_all add: hd_rev)
  then have "dropWhile isspace (rev s) = rev s" by (cases "rev s") auto
  with a show ?thesis by (simp add: strip_def)
qed

lemma py_int_bad:
  assumes "c \<in> set s" and "\<not> numeric_char c"
  shows "py_int s = None"
proof -
  from assms(2) have c: "digit_val c = None" "c \<noteq> CHR ''_''" "c \<noteq> CHR ''+''" "c \<noteq> CHR ''-''"
    "\<not> isspace c" by (simp_all add: numeric_char_def)
  from assms(1) c(5) have "c \<in> set (strip s)" by (rule strip_keeps)
  then obtain x xs where xs: "strip s = x # xs" "c = x \<or> c \<in> set xs"
    by (cases "strip s") auto
  have cs: "parse_limited ys = None" if "c \<in> set ys" for ys
    using that c(1,2) by (rule parse_limited_bad)
  show ?thesis
  proof (cases "x = CHR ''-'' \<or> x = CHR ''+''")
    case True
    with xs(2) c have "c \<in> set xs" by auto
    then have "parse_limited xs = None" by (rule cs)
    with True xs(1) show ?thesis by (auto simp: py_int_def)
  next
    case False
    from xs(2) have "c \<in> set (x # xs)" by auto
    then have "parse_limited (x # xs) = None" by (rule cs)
    with False xs(1) show ?thesis by (simp add: py_int_def)
  qed
qed

lemma str_nat_digits: "\<forall>c\<in>set (str_nat n). digit_val c \<noteq> None"
proof (induction n rule: str_nat.induct)
  case (1 n)
  show ?case
  proof (cases "n < 10")
    case True
    then show ?thesis by (subst str_nat.simps) (simp add: digit_val_digit_char)
  next
    case False
    have "digit_val (digit_char (n mod 10)) = Some (n mod 10)"
      by (rule digit_val_digit_char) simp
    with False "1.IH" show ?thesis by (subst str_nat.simps) simp
  qed
qed

lemma str_nat_nonempty: "str_nat n \<noteq> []"
  by (subst str_nat.simps) simp

lemma dec_value_snoc:
  "dec_value (ds @ [c]) = 10 * dec_value ds + (case digit_val c of None \<Rightarrow> 0 | Some v \<Rightarrow> v)"
  by (simp add: dec_value_def)

lemma dec_value_str_nat: "dec_value (str_nat n) = n"
proof (induction n rule: str_nat.induct)
  case (1 n)
  show ?case
  proof (cases "n < 10")
    case True
    then show ?thesis
      by (subst str_nat.simps) (simp add: dec_value_def digit_val_digit_char)
  next
    case False
    have "digit_val (digit_char (n mod 10)) = Some (n mod 10)"
      by (rule digit_val_digit_char) simp
    with False "1.IH" show ?thesis
      by (subst str_nat.simps) (simp add: dec_value_snoc)
  qed
qed

lemma length_str_nat_le: "n < 10 ^ k \<Longrightarrow> 0 < k \<Longrightarrow> length (str_nat n) \<le> k"
proof (induction n arbitrary: k rule: str_nat.induct)
  case (1 n)
  show ?case
  proof (cases "n < 10")
    case True
    with "1.prems" show ?thesis by (subst str_nat.simps) simp
  next
    case False
    from "1.prems" obtain j where k: "k = Suc j" by (cases k) auto
    from False "1.prems" k have "0 < j" by (cases j) auto
    moreover from "1.prems" k have "n div 10 < 10 ^ j"
      by (simp add: less_mult_imp_div_less mult.commute)
    ultimately have "length (str_nat (n div 10)) \<le> j" using "1.IH" [OF False] by blast
    with False k show ?thesis by (subst str_nat.simps) simp
  qed
qed

lemma length_str_nat_gt: "10 ^ k \<le> n \<Longrightarrow> k < length (str_nat n)"
proof (induction n arbitrary: k rule: str_nat.induct)
  case (1 n)
  show ?case
  proof (cases "n < 10")
    case True
    have "k = 0"
    proof (rule ccontr)
      assume "k \<noteq> 0"
      then obtain j where k: "k = Suc j" by (cases k) auto
      have "(1::nat) \<le> 10 ^ j" by simp
      then have "(10::nat) \<le> 10 ^ k" by (simp add: k)
      with "1.prems" True show False by simp
    qed
    with True show ?thesis by (subst str_nat.simps) simp
  next
    case False
    show ?thesis
    proof (cases k)
      case 0
      with False show ?thesis by (subst str_nat.simps) simp
    next
      case (Suc j)
      with "1.prems" have "10 ^ j \<le> n div 10" by (simp add: less_eq_div_iff_mult_less_eq mult.commute)
      then have "j < length (str_nat (n div 10))" using "1.IH" [OF False] by blast
      with False Suc show ?thesis by (subst str_nat.simps) simp
    qed
  qed
qed

lemma str_nat_power: "str_nat (10 ^ k) = CHR ''1'' # replicate k (CHR ''0'')"
proof (induction k)
  case 0
  show ?case by (subst str_nat.simps) (simp add: digit_char_def)
next
  case (Suc k)
  have "str_nat (10 ^ Suc k) = str_nat (10 ^ k) @ [digit_char 0]"
    by (subst str_nat.simps) simp
  with Suc show ?case by (simp add: digit_char_def replicate_append_same)
qed

lemma digits_hd_last:
  assumes "ds \<noteq> []" and "\<forall>c\<in>set ds. digit_val c \<noteq> None"
  shows "\<not> isspace (hd ds)" and "\<not> isspace (last ds)"
    and "last ds \<noteq> CHR ''m''" and "last ds \<noteq> CHR ''h''" and "last ds \<noteq> CHR ''d''"
    and "hd ds \<noteq> CHR ''-''" and "hd ds \<noteq> CHR ''+''" and "hd ds \<noteq> CHR ''i''"
proof -
  from assms obtain v w where "digit_val (hd ds) = Some v" and "digit_val (last ds) = Some w"
    by (metis hd_in_set last_in_set not_Some_eq)
  then show "\<not> isspace (hd ds)" and "\<not> isspace (last ds)"
    and "last ds \<noteq> CHR ''m''" and "last ds \<noteq> CHR ''h''" and "last ds \<noteq> CHR ''d''"
    and "hd ds \<noteq> CHR ''-''" and "hd ds \<noteq> CHR ''+''" and "hd ds \<noteq> CHR ''i''"
    using digit_not_space digit_not_sign digit_not_letter by blast+
qed

lemma py_int_digits:
  assumes "ds \<noteq> []" and "\<forall>c\<in>set ds. digit_val c \<noteq> None"
  shows "py_int ds =
    (if int_max_str_digits < length ds then None else Some (int (dec_value ds)))"
proof -
  have "strip ds = ds" using assms by (intro strip_id digits_hd_last)
  moreover obtain c cs where "ds = c # cs" using assms(1) by (cases ds) auto
  moreover have "hd ds \<noteq> CHR ''-''" and "hd ds \<noteq> CHR ''+''"
    using assms by (rule digits_hd_last)+
  ultimately show ?thesis
    using parse_limited_digits [OF assms] by (simp add: py_int_def)
qed

lemma py_int_minus_digits:
  assumes "ds \<noteq> []" and "\<forall>c\<in>set ds. digit_val c \<noteq> None"
  shows "py_int (CHR ''-'' # ds) =
    (if int_max_str_digits < length ds then None else Some (- int (dec_value ds)))"
proof -
  have "\<not> isspace (last ds)" using assms by (rule digits_hd_last)
  then have "strip (CHR ''-'' # ds) = CHR ''-'' # ds"
    using assms(1) by (intro strip_id) (simp_all add: isspace_def)
  then show ?thesis
    using parse_limited_digits [OF assms] by (simp add: py_int_def)
qed

lemma lower_not_inf:
  assumes "s \<noteq> []" and "lower_char (hd s) \<noteq> CHR ''i''"
  shows "lower s \<noteq> ''inf''" and "lower s \<noteq> ''infinite''"
  using assms by (cases s; simp add: lower_def)+

lemma parse_duration_digits:
  assumes "ds \<noteq> []" and "\<forall>c\<in>set ds. digit_val c \<noteq> None"
  shows "parse_duration ds =
    (if int_max_str_digits < length ds then None else Some (Seconds (int (dec_value ds) * 60)))"
proof -
  from assms obtain v where "digit_val (hd ds) = Some v"
    by (metis hd_in_set not_Some_eq)
  then have "lower_char (hd ds) = hd ds" by (rule digit_lower)
  moreover have "hd ds \<noteq> CHR ''i''" using assms by (rule digits_hd_last)
  ultimately have "lower ds \<noteq> ''inf''" and "lower ds \<noteq> ''infinite''"
    using assms(1) by (simp_all add: lower_not_inf)
  moreover have "last ds \<noteq> CHR ''m''" and "last ds \<noteq> CHR ''h''" and "last ds \<noteq> CHR ''d''"
    using assms by (rule digits_hd_last)+
  ultimately show ?thesis
    using py_int_digits [OF assms] by (simp add: parse_duration_def endswith_def)
qed

lemma parse_duration_minus:
  assumes "ds \<noteq> []" and "\<forall>c\<in>set ds. digit_val c \<noteq> None" and "length ds \<le> int_max_str_digits"
  shows "parse_duration (CHR ''-'' # ds) = Some (Seconds (- int (dec_value ds) * 60))"
    and "parse_duration (CHR ''-'' # ds @ ''m'') = Some (Seconds (- int (dec_value ds) * 60))"
    and "parse_duration (CHR ''-'' # ds @ ''h'') = Some (Seconds (- int (dec_value ds) * 3600))"
    and "parse_duration (CHR ''-'' # ds @ ''d'') = Some (Seconds (- int (dec_value ds) * 86400))"
proof -
  have low: "lower_char (CHR ''-'') \<noteq> CHR ''i''" by (simp add: lower_char_def)
  have inf: "lower (CHR ''-'' # t) \<noteq> ''inf''" "lower (CHR ''-'' # t) \<noteq> ''infinite''" for t
    using low by (simp_all add: lower_not_inf)
  have pi: "py_int (CHR ''-'' # ds) = Some (- int (dec_value ds))"
    using py_int_minus_digits [OF assms(1,2)] assms(3) by simp
  have "last ds \<noteq> CHR ''m''" and "last ds \<noteq> CHR ''h''" and "last ds \<noteq> CHR ''d''"
    using assms(1,2) by (rule digits_hd_last)+
  then show "parse_duration (CHR ''-'' # ds) = Some (Seconds (- int (dec_value ds) * 60))"
    using inf [of ds] pi assms(1)
    by (simp add: parse_duration_def endswith_def)
  have bl: "butlast (CHR ''-'' # ds @ [u]) = CHR ''-'' # ds" for u
    by (simp add: butlast_append)
  show "parse_duration (CHR ''-'' # ds @ ''m'') = Some (Seconds (- int (dec_value ds) * 60))"
    using inf [of "ds @ ''m''"] pi bl [of "CHR ''m''"]
    by (simp add: parse_duration_def endswith_def)
  show "parse_duration (CHR ''-'' # ds @ ''h'') = Some (Seconds (- int (dec_value ds) * 3600))"
    using inf [of "ds @ ''h''"] pi bl [of "CHR ''h''"]
    by (simp add: parse_duration_def endswith_def)
  show "parse_duration (CHR ''-'' # ds @ ''d'') = Some (Seconds (- int (dec_value ds) * 86400))"
    using inf [of "ds @ ''d''"] pi bl [of "CHR ''d''"]
    by (simp add: parse_duration_def endswith_def)
qed


lemma no_double_underscore_Cons:
  "c \<noteq> CHR ''_'' \<Longrightarrow> no_double_underscore (c # cs) = no_double_underscore cs"
  by (cases cs) simp_all

lemma parse_digits_ok_iff:
  "(parse_digits acc cs \<noteq> None) =
     (list_all (\<lambda>c. digit_val c \<noteq> None \<or> c = CHR ''_'') cs \<and>
      (cs \<noteq> [] \<longrightarrow> last cs \<noteq> CHR ''_'') \<and> no_double_underscore cs)"
proof (induction acc cs rule: parse_digits.induct)
  case (1 acc)
  show ?case by simp
next
  case (2 acc c)
  show ?case
  proof (cases "digit_val c")
    case None
    then show ?thesis by simp
  next
    case (Some v)
    then have "c \<noteq> CHR ''_''" using digit_not_sign by blast
    with Some show ?thesis by simp
  qed
next
  case (3 acc c d ds)
  show ?case
  proof (cases "c = CHR ''_''")
    case True
    show ?thesis
    proof (cases "digit_val d")
      case None
      with True show ?thesis by auto
    next
      case (Some v)
      then have d: "d \<noteq> CHR ''_''" using digit_not_sign by blast
      have "(parse_digits acc (c # d # ds) \<noteq> None) = (parse_digits (10 * acc + v) ds \<noteq> None)"
        using True Some by simp
      also have "\<dots> = (list_all (\<lambda>c. digit_val c \<noteq> None \<or> c = CHR ''_'') ds \<and>
          (ds \<noteq> [] \<longrightarrow> last ds \<noteq> CHR ''_'') \<and> no_double_underscore ds)"
        using "3.IH"(1) [OF True Some] .
      also have "\<dots> = (list_all (\<lambda>c. digit_val c \<noteq> None \<or> c = CHR ''_'') (c # d # ds) \<and>
          (c # d # ds \<noteq> [] \<longrightarrow> last (c # d # ds) \<noteq> CHR ''_'') \<and>
          no_double_underscore (c # d # ds))"
        using True Some d by (simp add: no_double_underscore_Cons)
      finally show ?thesis .
    qed
  next
    case False
    show ?thesis
    proof (cases "digit_val c")
      case None
      with False show ?thesis by simp
    next
      case (Some v)
      have "(parse_digits acc (c # d # ds) \<noteq> None) = (parse_digits (10 * acc + v) (d # ds) \<noteq> None)"
        using False Some by simp
      also have "\<dots> = (list_all (\<lambda>c. digit_val c \<noteq> None \<or> c = CHR ''_'') (d # ds) \<and>
          (d # ds \<noteq> [] \<longrightarrow> last (d # ds) \<noteq> CHR ''_'') \<and> no_double_underscore (d # ds))"
        using "3.IH"(2) [OF False Some] .
      also have "\<dots> = (list_all (\<lambda>c. digit_val c \<noteq> None \<or> c = CHR ''_'') (c # d # ds) \<and>
          (c # d # ds \<noteq> [] \<longrightarrow> last (c # d # ds) \<noteq> CHR ''_'') \<and>
          no_double_underscore (c # d # ds))"
        using False Some by simp
      finally show ?thesis .
    qed
  qed
qed

lemma parse_unsigned_ok_iff:
  "(parse_unsigned s \<noteq> None) =
     (s \<noteq> [] \<and> list_all (\<lambda>c. digit_val c \<noteq> None \<or> c = CHR ''_'') s \<and>
      hd s \<noteq> CHR ''_'' \<and> last s \<noteq> CHR ''_'' \<and> no_double_underscore s)"
proof (cases s)
  case Nil
  then show ?thesis by (simp add: parse_unsigned_def)
next
  case (Cons c cs)
  show ?thesis
  proof (cases "digit_val c")
    case None
    with Cons show ?thesis by (auto simp: parse_unsigned_def)
  next
    case (Some v)
    then have c: "c \<noteq> CHR ''_''" using digit_not_sign by blast
    have "(parse_unsigned s \<noteq> None) = (parse_digits v cs \<noteq> None)"
      using Cons Some by (simp add: parse_unsigned_def)
    also have "\<dots> = (list_all (\<lambda>c. digit_val c \<noteq> None \<or> c = CHR ''_'') cs \<and>
        (cs \<noteq> [] \<longrightarrow> last cs \<noteq> CHR ''_'') \<and> no_double_underscore cs)"
      by (rule parse_digits_ok_iff)
    also have "\<dots> = (s \<noteq> [] \<and> list_all (\<lambda>c. digit_val c \<noteq> None \<or> c = CHR ''_'') s \<and>
        hd s \<noteq> CHR ''_'' \<and> last s \<noteq> CHR ''_'' \<and> no_double_underscore s)"
      using Cons Some c by (simp add: no_double_underscore_Cons)
    finally show ?thesis .
  qed
qed

lemma parse_limited_None_iff:
  "(parse_limited s = None) =
     (\<not> (s \<noteq> [] \<and> list_all (\<lambda>c. digit_val c \<noteq> None \<or> c = CHR ''_'') s \<and>
         hd s \<noteq> CHR ''_'' \<and> last s \<noteq> CHR ''_'' \<and> no_double_underscore s \<and>
         count_digits s \<le> int_max_str_digits))"
  using parse_unsigned_ok_iff [of s] by (auto simp: parse_limited_def)

lemma py_int_None_iff: "(py_int s = None) = (\<not> int_literal s)"
proof (cases "strip s")
  case Nil
  then show ?thesis by (simp add: py_int_def int_literal_def unsigned_part_def)
next
  case (Cons c cs)
  show ?thesis
  proof (cases "c = CHR ''-'' \<or> c = CHR ''+''")
    case True
    with Cons have "unsigned_part s = cs" by (simp add: unsigned_part_def)
    moreover from True Cons have "(py_int s = None) = (parse_limited cs = None)"
      by (auto simp: py_int_def)
    ultimately show ?thesis by (simp add: int_literal_def parse_limited_None_iff)
  next
    case False
    with Cons have "unsigned_part s = c # cs" by (simp add: unsigned_part_def)
    moreover from False Cons have "(py_int s = None) = (parse_limited (c # cs) = None)"
      by (simp add: py_int_def)
    ultimately show ?thesis by (simp add: int_literal_def parse_limited_None_iff)
  qed
qed

lemma parse_duration_None_iff:
  "(parse_duration s = None) =
     (lower s \<noteq> ''inf'' \<and> lower s \<noteq> ''infinite'' \<and> \<not> int_literal (numeric_part s))"
proof (cases "lower s = ''inf'' \<or> lower s = ''infinite''")
  case True
  then show ?thesis by (auto simp: parse_duration_def)
next
  case False
  show ?thesis
  proof (cases "endswith s (CHR ''m'') \<or> endswith s (CHR ''h'') \<or> endswith s (CHR ''d'')")
    case True
    then have "numeric_part s = butlast s" by (simp add: numeric_part_def)
    moreover from True False have "(parse_duration s = None) = (py_int (butlast s) = None)"
      by (auto simp: parse_duration_def)
    ultimately show ?thesis using False by (simp add: py_int_None_iff)
  next
    case unit: False
    then have "numeric_part s = s" by (simp add: numeric_part_def)
    moreover from unit False have "(parse_duration s = None) = (py_int s = None)"
      by (simp add: parse_duration_def)
    ultimately show ?thesis using False by (simp add: py_int_None_iff)
  qed
qed

lemma parse_duration_bad:
  assumes "lower s \<noteq> ''inf''" and "lower s \<noteq> ''infinite''"
    and "c \<in> set (numeric_part s)" and "\<not> numeric_char c"
  shows "parse_duration s = None"
proof -
  from assms(3,4) have "py_int (numeric_part s) = None" by (rule py_int_bad)
  then have "\<not> int_literal (numeric_part s)" by (simp add: py_int_None_iff)
  with assms(1,2) show ?thesis by (simp add: parse_duration_None_iff)
qed


lemmas parse_eval = parse_duration_def lower_def lower_char_def endswith_def py_int_def strip_def
  isspace_def parse_unsigned_def digit_val_def parse_limited_def count_digits_def
  int_max_str_digits_def

lemma str_nat_5: "str_nat 5 = ''5''" by (simp add: str_nat.simps digit_char_def)
lemma str_nat_42: "str_nat 42 = ''42''" by (simp add: str_nat.simps digit_char_def)

lemma small_below_limit:
  fixes n :: nat
  assumes "n < 100"
  shows "n < 10 ^ int_max_str_digits"
proof -
  from assms have "n < 10 ^ 2" by simp
  also have "(10::nat) ^ 2 \<le> 10 ^ int_max_str_digits"
    by (rule power_increasing) (simp_all add: int_max_str_digits_def)
  finally show ?thesis .
qed

lemma parse_duration_str_nat:
  "parse_duration (str_nat n) =
     (if n < 10 ^ int_max_str_digits then Some (Seconds (int n * 60)) else None)"
proof (cases "n < 10 ^ int_max_str_digits")
  case True
  then have "length (str_nat n) \<le> int_max_str_digits"
    by (rule length_str_nat_le) (simp add: int_max_str_digits_def)
  with True show ?thesis
    using parse_duration_digits [OF str_nat_nonempty str_nat_digits, of n]
    by (simp add: dec_value_str_nat)
next
  case False
  then have "int_max_str_digits < length (str_nat n)" by (intro length_str_nat_gt) simp
  with False show ?thesis
    using parse_duration_digits [OF str_nat_nonempty str_nat_digits, of n] by simp
qed

section \<open>What \<open>parse_duration\<close> accepts and rejects\<close>

text \<open>
  The numeral of \<open>10 ^ 4300\<close>, a one followed by 4300 zeros, has 4301 digits: \<open>int()\<close>
  refuses it and \<open>parse_duration\<close> returns \<open>None\<close>, not that many minutes.
\<close>

theorem parse_duration_long_numeral_counterexample:
  "str_nat (10 ^ 4300) = CHR ''1'' # replicate 4300 (CHR ''0'') \<and>
   parse_duration (str_nat (10 ^ 4300)) = None"
proof
  show "str_nat (10 ^ 4300) = CHR ''1'' # replicate 4300 (CHR ''0'')" by (rule str_nat_power)
  have "\<not> (10::nat) ^ 4300 < 10 ^ int_max_str_digits"
    unfolding int_max_str_digits_def by (rule less_irrefl)
  then show "parse_duration (str_nat (10 ^ 4300)) = None"
    by (simp only: parse_duration_str_nat if_False)
qed

text \<open>
  C6, amended: \<open>parse_duration\<close> maps \<open>5m\<close> to 300 seconds, \<open>2h\<close> to 7200 seconds, \<open>1d\<close>
  to 86400 seconds, every spelling of \<open>inf\<close> and \<open>infinite\<close> in upper or lower case to
  Infinite, and the decimal numeral of every natural number below \<open>10 ^ 4300\<close> (at most
  4300 digits), with no unit, to that many minutes; the numeral of a larger number is
  rejected.
\<close>

theorem parse_duration_accepts:
  "parse_duration ''5m'' = Some (Seconds 300) \<and>
   parse_duration ''2h'' = Some (Seconds 7200) \<and>
   parse_duration ''1d'' = Some (Seconds 86400) \<and>
   (\<forall>s. lower s = ''inf'' \<or> lower s = ''infinite'' \<longrightarrow> parse_duration s = Some Infinite) \<and>
   (\<forall>n. n < 10 ^ int_max_str_digits \<longrightarrow>
      parse_duration (str_nat n) = Some (Seconds (int n * 60))) \<and>
   (\<forall>n. 10 ^ int_max_str_digits \<le> n \<longrightarrow> parse_duration (str_nat n) = None)"
proof (intro conjI allI impI)
  show "parse_duration ''5m'' = Some (Seconds 300)" by (simp add: parse_eval)
  show "parse_duration ''2h'' = Some (Seconds 7200)" by (simp add: parse_eval)
  show "parse_duration ''1d'' = Some (Seconds 86400)" by (simp add: parse_eval)
next
  fix s assume "lower s = ''inf'' \<or> lower s = ''infinite''"
  then show "parse_duration s = Some Infinite" by (simp add: parse_duration_def)
next
  fix n :: nat assume "n < 10 ^ int_max_str_digits"
  then show "parse_duration (str_nat n) = Some (Seconds (int n * 60))"
    by (simp add: parse_duration_str_nat)
next
  fix n :: nat assume "10 ^ int_max_str_digits \<le> n"
  then show "parse_duration (str_nat n) = None"
    by (simp add: parse_duration_str_nat)
qed

theorem parse_duration_accepts_witness:
  "lower ''InF'' = ''inf'' \<and> parse_duration ''InF'' = Some Infinite \<and>
   lower ''Infinite'' = ''infinite'' \<and> parse_duration ''Infinite'' = Some Infinite \<and>
   (42::nat) < 10 ^ int_max_str_digits \<and> parse_duration ''42'' = Some (Seconds 2520) \<and>
   (10::nat) ^ int_max_str_digits \<le> 10 ^ int_max_str_digits \<and>
   parse_duration (CHR ''1'' # replicate int_max_str_digits (CHR ''0'')) = None"
proof -
  have a: "lower ''InF'' = ''inf''" by (simp add: lower_def lower_char_def)
  have b: "lower ''Infinite'' = ''infinite''" by (simp add: lower_def lower_char_def)
  have small: "(42::nat) < 10 ^ int_max_str_digits" by (rule small_below_limit) simp
  from parse_duration_accepts have
    inf: "\<And>s. lower s = ''inf'' \<or> lower s = ''infinite'' \<Longrightarrow> parse_duration s = Some Infinite"
    and num: "\<And>n. n < 10 ^ int_max_str_digits \<Longrightarrow>
      parse_duration (str_nat n) = Some (Seconds (int n * 60))"
    and big: "\<And>n. 10 ^ int_max_str_digits \<le> n \<Longrightarrow> parse_duration (str_nat n) = None"
    by blast+
  from inf [of "''InF''"] a have c: "parse_duration ''InF'' = Some Infinite" by simp
  from inf [of "''Infinite''"] b have d: "parse_duration ''Infinite'' = Some Infinite" by simp
  from num [OF small] have e: "parse_duration ''42'' = Some (Seconds 2520)"
    by (simp add: str_nat_42)
  from big [of "10 ^ int_max_str_digits"]
  have f: "parse_duration (CHR ''1'' # replicate int_max_str_digits (CHR ''0'')) = None"
    by (simp add: str_nat_power)
  from a b c d small e f show ?thesis by simp
qed

text \<open>
  A negative number is not rejected: \<open>int()\<close> takes the sign, and \<open>-5m\<close> gives \<open>-300\<close>
  seconds.
\<close>

theorem parse_duration_negative_counterexample:
  "parse_duration ''-5m'' = Some (Seconds (- 300)) \<and> parse_duration ''-5m'' \<noteq> None"
  by (simp add: parse_eval)

text \<open>
  C4, amended: \<open>parse_duration\<close> returns \<open>None\<close> exactly on the strings that are neither
  a spelling of \<open>inf\<close> or \<open>infinite\<close> nor an integer literal followed or not by one unit
  \<open>m\<close>, \<open>h\<close> or \<open>d\<close>. So it returns \<open>None\<close> on the empty string and on every string,
  other than those spellings, whose numeric part has a character that is neither a digit,
  a sign, an underscore nor whitespace. A minus sign is part of an integer literal: before
  the numeral of a number below \<open>10 ^ 4300\<close>, with or without a unit, it gives the
  negative number of seconds.
\<close>

theorem parse_duration_rejects:
  "(parse_duration s = None) =
     (lower s \<noteq> ''inf'' \<and> lower s \<noteq> ''infinite'' \<and> \<not> int_literal (numeric_part s)) \<and>
   parse_duration [] = None \<and>
   (lower s \<noteq> ''inf'' \<and> lower s \<noteq> ''infinite'' \<and> c \<in> set (numeric_part s) \<and> \<not> numeric_char c
      \<longrightarrow> parse_duration s = None) \<and>
   (n < 10 ^ int_max_str_digits \<longrightarrow>
      parse_duration (CHR ''-'' # str_nat n) = Some (Seconds (- int n * 60)) \<and>
      parse_duration (CHR ''-'' # str_nat n @ ''m'') = Some (Seconds (- int n * 60)) \<and>
      parse_duration (CHR ''-'' # str_nat n @ ''h'') = Some (Seconds (- int n * 3600)) \<and>
      parse_duration (CHR ''-'' # str_nat n @ ''d'') = Some (Seconds (- int n * 86400)))"
proof (intro conjI impI)
  show "(parse_duration s = None) =
     (lower s \<noteq> ''inf'' \<and> lower s \<noteq> ''infinite'' \<and> \<not> int_literal (numeric_part s))"
    by (rule parse_duration_None_iff)
  show "parse_duration [] = None" by (simp add: parse_eval)
next
  assume "lower s \<noteq> ''inf'' \<and> lower s \<noteq> ''infinite'' \<and> c \<in> set (numeric_part s) \<and> \<not> numeric_char c"
  then show "parse_duration s = None" using parse_duration_bad by blast
next
  assume "n < 10 ^ int_max_str_digits"
  then have "length (str_nat n) \<le> int_max_str_digits"
    by (rule length_str_nat_le) (simp add: int_max_str_digits_def)
  note neg = parse_duration_minus [OF str_nat_nonempty str_nat_digits this,
      unfolded dec_value_str_nat]
  show "parse_duration (CHR ''-'' # str_nat n) = Some (Seconds (- int n * 60))" by (rule neg(1))
  show "parse_duration (CHR ''-'' # str_nat n @ ''m'') = Some (Seconds (- int n * 60))" by (rule neg(2))
  show "parse_duration (CHR ''-'' # str_nat n @ ''h'') = Some (Seconds (- int n * 3600))" by (rule neg(3))
  show "parse_duration (CHR ''-'' # str_nat n @ ''d'') = Some (Seconds (- int n * 86400))" by (rule neg(4))
qed

theorem parse_duration_rejects_witness:
  "lower ''abc'' \<noteq> ''inf'' \<and> lower ''abc'' \<noteq> ''infinite'' \<and>
   CHR ''a'' \<in> set (numeric_part ''abc'') \<and> \<not> numeric_char (CHR ''a'') \<and>
   parse_duration ''abc'' = None \<and>
   \<not> int_literal (numeric_part ''5x'') \<and> parse_duration ''5x'' = None \<and>
   \<not> int_literal (numeric_part ''--5'') \<and> parse_duration ''--5'' = None \<and>
   \<not> int_literal (numeric_part ''m'') \<and> parse_duration ''m'' = None \<and>
   (5::nat) < 10 ^ int_max_str_digits \<and> parse_duration ''-5h'' = Some (Seconds (- 18000))"
proof -
  have a: "lower ''abc'' \<noteq> ''inf'' \<and> lower ''abc'' \<noteq> ''infinite'' \<and>
    CHR ''a'' \<in> set (numeric_part ''abc'') \<and> \<not> numeric_char (CHR ''a'')"
    by (simp add: lower_def lower_char_def numeric_part_def endswith_def numeric_char_def
        digit_val_def isspace_def)
  have lit: "\<not> int_literal (numeric_part ''5x'')" "\<not> int_literal (numeric_part ''--5'')"
    "\<not> int_literal (numeric_part ''m'')"
    by (simp_all add: int_literal_def unsigned_part_def numeric_part_def endswith_def strip_def
        isspace_def digit_val_def)
  have low: "lower ''5x'' \<noteq> ''inf'' \<and> lower ''5x'' \<noteq> ''infinite''"
    "lower ''--5'' \<noteq> ''inf'' \<and> lower ''--5'' \<noteq> ''infinite''"
    "lower ''m'' \<noteq> ''inf'' \<and> lower ''m'' \<noteq> ''infinite''"
    by (simp_all add: lower_def)
  have small: "(5::nat) < 10 ^ int_max_str_digits" by (rule small_below_limit) simp
  from parse_duration_rejects [of "''abc''" "CHR ''a''" 5] a
  have b: "parse_duration ''abc'' = None" by blast
  from parse_duration_rejects [of "''5x''" "CHR ''a''" 5] lit(1) low(1)
  have c: "parse_duration ''5x'' = None" by blast
  from parse_duration_rejects [of "''--5''" "CHR ''a''" 5] lit(2) low(2)
  have d: "parse_duration ''--5'' = None" by blast
  from parse_duration_rejects [of "''m''" "CHR ''a''" 5] lit(3) low(3)
  have e: "parse_duration ''m'' = None" by blast
  from parse_duration_rejects [of "''abc''" "CHR ''a''" 5] small
  have "parse_duration (CHR ''-'' # str_nat 5 @ ''h'') = Some (Seconds (- int 5 * 3600))" by blast
  then have f: "parse_duration ''-5h'' = Some (Seconds (- 18000))" by (simp add: str_nat_5)
  from a b lit c d e small f show ?thesis by simp
qed

section \<open>Authorisation and the permission predicate\<close>

lemmas guild_eval = cfg0_def admin0_def guest0_def alice_def bob_def initial_def
  is_admin_def has_essential_role_def has_prime_role_def get_role_def

text \<open>
  C7: when the caller fails the administrator check, \<open>whitelist\<close>, \<open>permit\<close> and
  \<open>unpermit\<close> answer Access Denied and return the state as it was: no backend call is
  recorded, and the permits, the timeouts and the tasks are untouched.
\<close>

theorem unauthorized_no_side_effects:
  "\<not> is_admin cfg (author c) \<Longrightarrow>
   whitelist cfg c user duration plan add_result s = (Inr Access_Denied, s) \<and>
   permit cfg c user duration s = (Access_Denied, s) \<and>
   unpermit cfg c user s = (Access_Denied, s)"
  by (simp add: whitelist_def permit_def unpermit_def)

theorem unauthorized_no_side_effects_witness:
  "\<not> is_admin cfg0 (author guest0) \<and>
   whitelist cfg0 guest0 alice ''5m'' ''prime'' None initial = (Inr Access_Denied, initial) \<and>
   permit cfg0 guest0 alice ''5m'' initial = (Access_Denied, initial) \<and>
   unpermit cfg0 guest0 alice initial = (Access_Denied, initial)"
proof -
  have a: "\<not> is_admin cfg0 (author guest0)" by (simp add: guild_eval)
  from unauthorized_no_side_effects [OF a] a show ?thesis by simp
qed

text \<open>
  C8: \<open>unpermit\<close> by an administrator on a user who is not in \<open>permitted_users\<close> answers
  Not Permitted and returns the state as it was (so no backend call is made), and a
  second \<open>unpermit\<close> right after it does the same.
\<close>

theorem unpermit_not_granted:
  "is_admin cfg (author c) \<Longrightarrow> user_id user \<notin> permitted_users s \<Longrightarrow>
   unpermit cfg c user s = (Not_Permitted, s) \<and>
   unpermit cfg c user (snd (unpermit cfg c user s)) = (Not_Permitted, s)"
  by (simp add: unpermit_def)

theorem unpermit_not_granted_witness:
  "is_admin cfg0 (author admin0) \<and> user_id alice \<notin> permitted_users initial \<and>
   unpermit cfg0 admin0 alice initial = (Not_Permitted, initial) \<and>
   unpermit cfg0 admin0 alice (snd (unpermit cfg0 admin0 alice initial)) = (Not_Permitted, initial)"
proof -
  have a: "is_admin cfg0 (author admin0)" by (simp add: guild_eval)
  have b: "user_id alice \<notin> permitted_users initial" by (simp add: guild_eval)
  from unpermit_not_granted [OF a b] a b show ?thesis by simp
qed

text \<open>
  C10: a user is permitted exactly when they hold the admin role, the essential role or
  the prime role, or are in \<open>permitted_users\<close>; so after any \<open>unpermit\<close> a user holding
  one of the three roles is still permitted.
\<close>

theorem is_permitted_disjunction:
  "is_permitted cfg s user =
     (ADMIN_ROLE_ID cfg \<in> set (roles user) \<or> ESSENTIAL_ROLE_ID cfg \<in> set (roles user) \<or>
      PRIME_ROLE_ID cfg \<in> set (roles user) \<or> user_id user \<in> permitted_users s) \<and>
   (ADMIN_ROLE_ID cfg \<in> set (roles user) \<or> ESSENTIAL_ROLE_ID cfg \<in> set (roles user) \<or>
    PRIME_ROLE_ID cfg \<in> set (roles user) \<longrightarrow>
      is_permitted cfg (snd (unpermit cfg c target s)) user)"
  by (auto simp: is_permitted_def is_admin_def has_essential_role_def has_prime_role_def
      list_ex_iff)

theorem is_permitted_disjunction_witness:
  "PRIME_ROLE_ID cfg0 \<in> set (roles bob) \<and>
   fst (unpermit cfg0 admin0 bob (snd (permit cfg0 admin0 bob ''inf'' initial))) = Permission_Revoked \<and>
   is_permitted cfg0 (snd (unpermit cfg0 admin0 bob (snd (permit cfg0 admin0 bob ''inf'' initial)))) bob"
proof -
  have a: "PRIME_ROLE_ID cfg0 \<in> set (roles bob)" by (simp add: guild_eval)
  have b: "fst (unpermit cfg0 admin0 bob (snd (permit cfg0 admin0 bob ''inf'' initial)))
    = Permission_Revoked"
    by (simp add: unpermit_def permit_def guild_eval parse_duration_def lower_def lower_char_def)
  from is_permitted_disjunction [of cfg0 _ bob admin0 bob] a
  have "is_permitted cfg0 (snd (unpermit cfg0 admin0 bob (snd (permit cfg0 admin0 bob ''inf'' initial)))) bob"
    by blast
  with a b show ?thesis by simp
qed

section \<open>The expiry coroutines absorb backend failures\<close>

lemmas run_eval = run_def whitelist_def permit_def unpermit_def fire_def create_task_def cancel_def
  remove_role_after_timeout_def remove_permit_after_timeout_def Let_def

lemma whitelisted0_eq:
  "whitelisted0 =
     \<lparr>now = 300, permitted_users = {}, user_timeouts = [7 \<mapsto> 0],
      tasks = [\<lparr>coro = Remove_role alice 3, wake_at = 300, status = Sleeping\<rparr>],
      guild_roles = {(7, 3)}, backend_calls = [Add_roles 7 3], log = []\<rparr>"
  by (simp add: whitelisted0_def run_eval parse_eval guild_eval)

text \<open>
  C9: both expiry coroutines return normally whatever \<open>remove_roles\<close> does, the role one
  logging a warning for NotFound and an error for any other exception; afterwards the
  user has no entry in \<open>user_timeouts\<close>; removing a role or a permit that is already gone
  changes nothing. A due task that the loop wakes ends as Finished, its user without an
  entry in \<open>user_timeouts\<close>, and no exception of a task is recorded by the loop.
\<close>

theorem expiry_absorbs_failures:
  "(\<exists>s'. remove_role_after_timeout user role remove_result s = Inr s' \<and>
      user_timeouts s' (user_id user) = None \<and>
      (remove_result = Some NotFound \<longrightarrow>
         log s' = log s @ [Warning_user_not_found (user_id user)]) \<and>
      (\<forall>e. remove_result = Some e \<and> e \<noteq> NotFound \<longrightarrow>
         log s' = log s @ [Error_removing_role (user_id user) e]) \<and>
      ((user_id user, role) \<notin> guild_roles s \<longrightarrow> guild_roles s' = guild_roles s)) \<and>
   (\<exists>s'. remove_permit_after_timeout uid s = Inr s' \<and>
      user_timeouts s' uid = None \<and>
      (uid \<notin> permitted_users s \<longrightarrow> permitted_users s' = permitted_users s)) \<and>
   (h < length (tasks s) \<and> status (tasks s ! h) = Sleeping \<and> wake_at (tasks s ! h) \<le> now s \<longrightarrow>
      status (tasks (fire h remove_result s) ! h) = Finished \<and>
      user_timeouts (fire h remove_result s) (task_user (coro (tasks s ! h))) = None \<and>
      (\<forall>e. Task_exception e \<notin> set (log s) \<longrightarrow>
         Task_exception e \<notin> set (log (fire h remove_result s))))"
proof (intro conjI)
  show "\<exists>s'. remove_role_after_timeout user role remove_result s = Inr s' \<and>
      user_timeouts s' (user_id user) = None \<and>
      (remove_result = Some NotFound \<longrightarrow>
         log s' = log s @ [Warning_user_not_found (user_id user)]) \<and>
      (\<forall>e. remove_result = Some e \<and> e \<noteq> NotFound \<longrightarrow>
         log s' = log s @ [Error_removing_role (user_id user) e]) \<and>
      ((user_id user, role) \<notin> guild_roles s \<longrightarrow> guild_roles s' = guild_roles s)"
  proof (cases remove_result)
    case None
    then show ?thesis by (simp add: remove_role_after_timeout_def Let_def)
  next
    case (Some e)
    then show ?thesis by (cases e) (simp_all add: remove_role_after_timeout_def Let_def)
  qed
  show "\<exists>s'. remove_permit_after_timeout uid s = Inr s' \<and>
      user_timeouts s' uid = None \<and>
      (uid \<notin> permitted_users s \<longrightarrow> permitted_users s' = permitted_users s)"
    by (simp add: remove_permit_after_timeout_def Let_def)
  show "h < length (tasks s) \<and> status (tasks s ! h) = Sleeping \<and> wake_at (tasks s ! h) \<le> now s \<longrightarrow>
      status (tasks (fire h remove_result s) ! h) = Finished \<and>
      user_timeouts (fire h remove_result s) (task_user (coro (tasks s ! h))) = None \<and>
      (\<forall>e. Task_exception e \<notin> set (log s) \<longrightarrow>
         Task_exception e \<notin> set (log (fire h remove_result s)))"
  proof
    assume due: "h < length (tasks s) \<and> status (tasks s ! h) = Sleeping \<and> wake_at (tasks s ! h) \<le> now s"
    show "status (tasks (fire h remove_result s) ! h) = Finished \<and>
      user_timeouts (fire h remove_result s) (task_user (coro (tasks s ! h))) = None \<and>
      (\<forall>e. Task_exception e \<notin> set (log s) \<longrightarrow>
         Task_exception e \<notin> set (log (fire h remove_result s)))"
    proof (cases "coro (tasks s ! h)")
      case (Remove_role user role)
      show ?thesis
      proof (cases remove_result)
        case None
        with due Remove_role show ?thesis
          by (simp add: fire_def remove_role_after_timeout_def Let_def)
      next
        case (Some e)
        with due Remove_role show ?thesis
          by (cases e) (simp_all add: fire_def remove_role_after_timeout_def Let_def)
      qed
    next
      case (Remove_permit uid)
      with due show ?thesis
        by (simp add: fire_def remove_permit_after_timeout_def Let_def)
    qed
  qed
qed

theorem expiry_absorbs_failures_witness:
  "0 < length (tasks whitelisted0) \<and> status (tasks whitelisted0 ! 0) = Sleeping \<and>
   wake_at (tasks whitelisted0 ! 0) \<le> now whitelisted0 \<and>
   status (tasks (fire 0 (Some HTTPException) whitelisted0) ! 0) = Finished \<and>
   user_timeouts (fire 0 (Some HTTPException) whitelisted0) (user_id alice) = None \<and>
   log (fire 0 (Some HTTPException) whitelisted0) = [Error_removing_role 7 HTTPException] \<and>
   (\<exists>s'. remove_role_after_timeout alice 3 (Some NotFound) whitelisted0 = Inr s' \<and>
      user_timeouts s' (user_id alice) = None \<and> log s' = [Warning_user_not_found 7]) \<and>
   (user_id alice, 2) \<notin> guild_roles whitelisted0 \<and>
   (\<exists>s'. remove_role_after_timeout alice 2 None whitelisted0 = Inr s' \<and>
      guild_roles s' = guild_roles whitelisted0) \<and>
   user_id bob \<notin> permitted_users whitelisted0 \<and>
   (\<exists>s'. remove_permit_after_timeout (user_id bob) whitelisted0 = Inr s' \<and>
      permitted_users s' = permitted_users whitelisted0)"
proof -
  have due: "0 < length (tasks whitelisted0) \<and> status (tasks whitelisted0 ! 0) = Sleeping \<and>
      wake_at (tasks whitelisted0 ! 0) \<le> now whitelisted0"
    by (simp add: whitelisted0_eq)
  have co: "task_user (coro (tasks whitelisted0 ! 0)) = user_id alice"
    by (simp add: whitelisted0_eq)
  have lg: "log (fire 0 (Some HTTPException) whitelisted0) = [Error_removing_role 7 HTTPException]"
    by (simp add: whitelisted0_eq run_eval guild_eval)
  have absent: "(user_id alice, 2) \<notin> guild_roles whitelisted0"
    "user_id bob \<notin> permitted_users whitelisted0"
    by (simp_all add: whitelisted0_eq guild_eval)
  have l0: "log whitelisted0 = []" by (simp add: whitelisted0_eq)
  have a7: "user_id alice = 7" by (simp add: guild_eval)
  note t1 = expiry_absorbs_failures [of alice 3 "Some HTTPException" whitelisted0 "user_id bob" 0]
  note t2 = expiry_absorbs_failures [of alice 3 "Some NotFound" whitelisted0 "user_id bob" 0]
  note t3 = expiry_absorbs_failures [of alice 2 None whitelisted0 "user_id bob" 0]
  from t1 due co have f: "status (tasks (fire 0 (Some HTTPException) whitelisted0) ! 0) = Finished \<and>
      user_timeouts (fire 0 (Some HTTPException) whitelisted0) (user_id alice) = None"
    by simp
  from t2 l0 a7 have nf: "\<exists>s'. remove_role_after_timeout alice 3 (Some NotFound) whitelisted0 = Inr s' \<and>
      user_timeouts s' (user_id alice) = None \<and> log s' = [Warning_user_not_found 7]"
    by auto
  from t3 absent(1) have rr: "\<exists>s'. remove_role_after_timeout alice 2 None whitelisted0 = Inr s' \<and>
      guild_roles s' = guild_roles whitelisted0"
    by auto
  from t1 absent(2) have rp: "\<exists>s'. remove_permit_after_timeout (user_id bob) whitelisted0 = Inr s' \<and>
      permitted_users s' = permitted_users whitelisted0"
    by auto
  from due f lg nf absent rr rp show ?thesis by simp
qed

section \<open>Runs in which a timer is lost\<close>

text \<open>
  C1 on the code: \<open>permit\<close> stores the new task's handle over the old one and cancels
  nothing. After permit 1m, thirty seconds, permit 1h, the first task is still asleep; at
  second 60 it wakes and removes alice from \<open>permitted_users\<close>, although the second grant
  runs until second 3630.
\<close>

theorem regrant_keeps_old_timer:
  "status (tasks (run cfg0 initial
      [Permit admin0 alice ''1m'', Tick 30, Permit admin0 alice ''1h'']) ! 0) = Sleeping \<and>
   user_id alice \<in> permitted_users (run cfg0 initial
      [Permit admin0 alice ''1m'', Tick 30, Permit admin0 alice ''1h'', Tick 30]) \<and>
   now (run cfg0 initial
      [Permit admin0 alice ''1m'', Tick 30, Permit admin0 alice ''1h'', Tick 30, Fire 0 None]) = 60 \<and>
   user_id alice \<notin> permitted_users (run cfg0 initial
      [Permit admin0 alice ''1m'', Tick 30, Permit admin0 alice ''1h'', Tick 30, Fire 0 None]) \<and>
   wake_at (tasks (run cfg0 initial
      [Permit admin0 alice ''1m'', Tick 30, Permit admin0 alice ''1h'', Tick 30, Fire 0 None]) ! 1) = 3630"
  by (simp add: run_eval parse_eval guild_eval)

text \<open>
  C2 on the code: \<open>whitelist\<close> and \<open>permit\<close> share \<open>user_timeouts\<close>, keyed by the user id
  alone. After permit 1m and whitelist 1h prime on alice, her entry holds the role task's
  handle and the permit task's handle is gone from the map; \<open>unpermit\<close> then cancels the
  role task, the permit task stays asleep, and the prime role is never removed.
\<close>

theorem shared_timeout_map_collision:
  "user_timeouts (run cfg0 initial [Permit admin0 alice ''1m'']) (user_id alice) = Some 0 \<and>
   user_timeouts (run cfg0 initial
      [Permit admin0 alice ''1m'', Whitelist admin0 alice ''1h'' ''prime'' None]) (user_id alice) = Some 1 \<and>
   coro (tasks (run cfg0 initial
      [Permit admin0 alice ''1m'', Whitelist admin0 alice ''1h'' ''prime'' None]) ! 1) = Remove_role alice 3 \<and>
   status (tasks (run cfg0 initial
      [Permit admin0 alice ''1m'', Whitelist admin0 alice ''1h'' ''prime'' None,
       Unpermit admin0 alice]) ! 1) = Cancelled \<and>
   status (tasks (run cfg0 initial
      [Permit admin0 alice ''1m'', Whitelist admin0 alice ''1h'' ''prime'' None,
       Unpermit admin0 alice]) ! 0) = Sleeping \<and>
   (user_id alice, 3) \<in> guild_roles (run cfg0 initial
      [Permit admin0 alice ''1m'', Whitelist admin0 alice ''1h'' ''prime'' None,
       Unpermit admin0 alice, Tick 3600, Fire 1 None]) \<and>
   backend_calls (run cfg0 initial
      [Permit admin0 alice ''1m'', Whitelist admin0 alice ''1h'' ''prime'' None,
       Unpermit admin0 alice, Tick 3600, Fire 1 None]) = [Add_roles 7 3]"
  by (simp add: run_eval parse_eval guild_eval)

text \<open>
  C3 on the code: permit \<open>inf\<close> after permit 1m creates no task, but the entry of the
  first grant stays in \<open>user_timeouts\<close> with its task asleep; at second 60 that task
  removes the permanent permit.
\<close>

theorem infinite_grant_keeps_old_timer:
  "fst (permit cfg0 admin0 alice ''inf'' (run cfg0 initial [Permit admin0 alice ''1m'']))
     = Permission_Granted ''permanent'' \<and>
   user_timeouts (run cfg0 initial
      [Permit admin0 alice ''1m'', Permit admin0 alice ''inf'']) (user_id alice) = Some 0 \<and>
   status (tasks (run cfg0 initial
      [Permit admin0 alice ''1m'', Permit admin0 alice ''inf'']) ! 0) = Sleeping \<and>
   user_id alice \<in> permitted_users (run cfg0 initial
      [Permit admin0 alice ''1m'', Permit admin0 alice ''inf'', Tick 60]) \<and>
   user_id alice \<notin> permitted_users (run cfg0 initial
      [Permit admin0 alice ''1m'', Permit admin0 alice ''inf'', Tick 60, Fire 0 None])"
  by (simp add: run_eval parse_eval guild_eval)

section \<open>Invariants of the runs\<close>

lemma handles_valid_whitelist:
  "handles_valid s \<Longrightarrow> handles_valid (snd (whitelist cfg c user duration plan add_result s))"
  by (auto simp: handles_valid_def whitelist_def create_task_def Let_def less_Suc_eq
      split: option.splits duration.splits discord_error.splits if_splits)

lemma handles_valid_permit:
  "handles_valid s \<Longrightarrow> handles_valid (snd (permit cfg c user duration s))"
  by (auto simp: handles_valid_def permit_def create_task_def Let_def less_Suc_eq
      split: option.splits duration.splits if_splits)

lemma handles_valid_unpermit:
  "handles_valid s \<Longrightarrow> handles_valid (snd (unpermit cfg c user s))"
  by (auto simp: handles_valid_def unpermit_def cancel_def Let_def
      split: option.splits if_splits)

lemma handles_valid_fire: "handles_valid s \<Longrightarrow> handles_valid (fire h remove_result s)"
  by (auto simp: handles_valid_def fire_def remove_role_after_timeout_def
      remove_permit_after_timeout_def Let_def
      split: option.splits coroutine.splits discord_error.splits if_splits)

lemma handles_valid_step: "handles_valid s \<Longrightarrow> handles_valid (step cfg s ev)"
proof (cases ev)
  case (Tick dt)
  assume "handles_valid s"
  with Tick show ?thesis by (simp add: handles_valid_def)
qed (simp_all add: handles_valid_whitelist handles_valid_permit handles_valid_unpermit
    handles_valid_fire)

lemma handles_valid_run: "handles_valid s \<Longrightarrow> handles_valid (run cfg s evs)"
  unfolding run_def by (induction evs arbitrary: s) (simp_all add: handles_valid_step)

lemma handles_valid_initial: "handles_valid initial"
  by (simp add: handles_valid_def initial_def)

lemma holds_timerD:
  assumes "holds_timer uid h s"
  shows "uid \<in> permitted_users s" and "user_timeouts s uid = Some h" and "h < length (tasks s)"
    and "status (tasks s ! h) = Sleeping" and "task_user (coro (tasks s ! h)) = uid"
    and "handles_valid s" and "\<And>u. user_timeouts s u = Some h \<Longrightarrow> u = uid"
  using assms unfolding holds_timer_def by blast+

lemma holds_timerI:
  assumes "uid \<in> permitted_users s" and "user_timeouts s uid = Some h" and "h < length (tasks s)"
    and "status (tasks s ! h) = Sleeping" and "task_user (coro (tasks s ! h)) = uid"
    and "handles_valid s" and "\<And>u. user_timeouts s u = Some h \<Longrightarrow> u = uid"
  shows "holds_timer uid h s"
  using assms unfolding holds_timer_def by blast

lemma whitelist_frame:
  "permitted_users (snd (whitelist cfg c user duration plan add_result s)) = permitted_users s \<and>
   (tasks (snd (whitelist cfg c user duration plan add_result s)) = tasks s \<and>
    user_timeouts (snd (whitelist cfg c user duration plan add_result s)) = user_timeouts s \<or>
    (\<exists>t. tasks (snd (whitelist cfg c user duration plan add_result s)) = tasks s @ [t] \<and>
       user_timeouts (snd (whitelist cfg c user duration plan add_result s)) =
         (user_timeouts s)(user_id user \<mapsto> length (tasks s))))"
  by (simp add: whitelist_def create_task_def Let_def
      split: option.splits duration.splits discord_error.splits)

lemma permit_frame:
  "permitted_users s \<subseteq> permitted_users (snd (permit cfg c user duration s)) \<and>
   (tasks (snd (permit cfg c user duration s)) = tasks s \<and>
    user_timeouts (snd (permit cfg c user duration s)) = user_timeouts s \<or>
    (\<exists>t. tasks (snd (permit cfg c user duration s)) = tasks s @ [t] \<and>
       user_timeouts (snd (permit cfg c user duration s)) =
         (user_timeouts s)(user_id user \<mapsto> length (tasks s))))"
  by (auto simp: permit_def create_task_def Let_def split: option.splits duration.splits)

lemma holds_timer_extend:
  assumes "holds_timer uid h s" and "permitted_users s \<subseteq> permitted_users s'"
    and "handles_valid s'" and "v \<noteq> uid"
    and "tasks s' = tasks s \<and> user_timeouts s' = user_timeouts s \<or>
      (\<exists>t. tasks s' = tasks s @ [t] \<and> user_timeouts s' = (user_timeouts s)(v \<mapsto> length (tasks s)))"
  shows "holds_timer uid h s'"
proof -
  note ht = holds_timerD [OF assms(1)]
  from assms(5) ht(3) have same: "tasks s' ! h = tasks s ! h" and len: "h < length (tasks s')"
    by (auto simp: nth_append)
  from assms(5) assms(4) have mine: "user_timeouts s' uid = user_timeouts s uid" by auto
  have others: "user_timeouts s u = Some h" if "user_timeouts s' u = Some h" for u
    using that assms(5) ht(3) by (auto split: if_splits)
  show ?thesis
  proof (rule holds_timerI)
    from ht(1) assms(2) show "uid \<in> permitted_users s'" by blast
    from ht(2) show "user_timeouts s' uid = Some h" by (simp add: mine)
    show "h < length (tasks s')" by (rule len)
    from ht(4) show "status (tasks s' ! h) = Sleeping" by (simp add: same)
    from ht(5) show "task_user (coro (tasks s' ! h)) = uid" by (simp add: same)
    show "handles_valid s'" by (rule assms(3))
    fix u assume "user_timeouts s' u = Some h"
    then have "user_timeouts s u = Some h" by (rule others)
    then show "u = uid" by (rule ht(7))
  qed
qed

lemma holds_timer_whitelist:
  assumes "holds_timer uid h s" and "user_id user \<noteq> uid"
  shows "holds_timer uid h (snd (whitelist cfg c user duration plan add_result s))"
proof (rule holds_timer_extend [OF assms(1) _ _ assms(2)])
  show "permitted_users s \<subseteq> permitted_users (snd (whitelist cfg c user duration plan add_result s))"
    using whitelist_frame [of cfg c user duration plan add_result s] by simp
  show "handles_valid (snd (whitelist cfg c user duration plan add_result s))"
    using holds_timerD(6) [OF assms(1)] by (rule handles_valid_whitelist)
  show "tasks (snd (whitelist cfg c user duration plan add_result s)) = tasks s \<and>
    user_timeouts (snd (whitelist cfg c user duration plan add_result s)) = user_timeouts s \<or>
    (\<exists>t. tasks (snd (whitelist cfg c user duration plan add_result s)) = tasks s @ [t] \<and>
       user_timeouts (snd (whitelist cfg c user duration plan add_result s)) =
         (user_timeouts s)(user_id user \<mapsto> length (tasks s)))"
    using whitelist_frame [of cfg c user duration plan add_result s] by blast
qed

lemma holds_timer_permit:
  assumes "holds_timer uid h s" and "user_id user \<noteq> uid"
  shows "holds_timer uid h (snd (permit cfg c user duration s))"
proof (rule holds_timer_extend [OF assms(1) _ _ assms(2)])
  show "permitted_users s \<subseteq> permitted_users (snd (permit cfg c user duration s))"
    using permit_frame [of s cfg c user duration] by blast
  show "handles_valid (snd (permit cfg c user duration s))"
    using holds_timerD(6) [OF assms(1)] by (rule handles_valid_permit)
  show "tasks (snd (permit cfg c user duration s)) = tasks s \<and>
    user_timeouts (snd (permit cfg c user duration s)) = user_timeouts s \<or>
    (\<exists>t. tasks (snd (permit cfg c user duration s)) = tasks s @ [t] \<and>
       user_timeouts (snd (permit cfg c user duration s)) =
         (user_timeouts s)(user_id user \<mapsto> length (tasks s)))"
    using permit_frame [of s cfg c user duration] by blast
qed

lemma permit_holds_timer:
  assumes "is_admin cfg (author c)" and "parse_duration duration = Some (Seconds d)"
    and "handles_valid s"
  shows "holds_timer (user_id user) (length (tasks s)) (snd (permit cfg c user duration s))"
proof -
  have eq: "snd (permit cfg c user duration s) =
      s\<lparr>permitted_users := insert (user_id user) (permitted_users s),
        tasks := tasks s @ [\<lparr>coro = Remove_permit (user_id user), wake_at = now s + d,
          status = Sleeping\<rparr>],
        user_timeouts := (user_timeouts s)(user_id user \<mapsto> length (tasks s))\<rparr>"
    using assms(1,2) by (simp add: permit_def create_task_def Let_def)
  have fresh: "user_timeouts s u \<noteq> Some (length (tasks s))" for u
    using assms(3) by (auto simp: handles_valid_def)
  have hv: "handles_valid (snd (permit cfg c user duration s))"
    using assms(3) by (rule handles_valid_permit)
  show ?thesis
  proof (rule holds_timerI)
    show "handles_valid (snd (permit cfg c user duration s))" by (rule hv)
    fix u assume "user_timeouts (snd (permit cfg c user duration s)) u = Some (length (tasks s))"
    then show "u = user_id user" using fresh [of u] by (simp add: eq split: if_splits)
  qed (simp_all add: eq)
qed

lemma cancel_other:
  "k \<noteq> h \<Longrightarrow> tasks (cancel k s) ! h = tasks s ! h \<and> length (tasks (cancel k s)) = length (tasks s)
     \<and> permitted_users (cancel k s) = permitted_users s \<and> user_timeouts (cancel k s) = user_timeouts s"
  by (simp add: cancel_def)

lemma holds_timer_unpermit:
  assumes "holds_timer uid h s" and "user_id user \<noteq> uid"
  shows "holds_timer uid h (snd (unpermit cfg c user s))"
proof (cases "is_admin cfg (author c) \<and> user_id user \<in> permitted_users s")
  case False
  then have "snd (unpermit cfg c user s) = s" by (auto simp: unpermit_def)
  with assms(1) show ?thesis by simp
next
  case True
  have hv: "handles_valid (snd (unpermit cfg c user s))"
    using assms(1) by (simp add: holds_timer_def handles_valid_unpermit)
  show ?thesis
  proof (cases "user_timeouts s (user_id user)")
    case None
    with True have "snd (unpermit cfg c user s) =
        s\<lparr>permitted_users := permitted_users s - {user_id user}\<rparr>"
      by (simp add: unpermit_def)
    with assms hv show ?thesis by (simp add: holds_timer_def)
  next
    case (Some k)
    with assms have ne: "k \<noteq> h" by (auto simp: holds_timer_def)
    from True Some have eq: "snd (unpermit cfg c user s) =
        (cancel k (s\<lparr>permitted_users := permitted_users s - {user_id user}\<rparr>))
          \<lparr>user_timeouts := (user_timeouts s)(user_id user := None)\<rparr>"
      by (simp add: unpermit_def)
    from hv have "handles_valid ((cancel k (s\<lparr>permitted_users := permitted_users s - {user_id user}\<rparr>))
          \<lparr>user_timeouts := (user_timeouts s)(user_id user := None)\<rparr>)"
      by (simp add: eq)
    with assms show ?thesis by (simp add: eq holds_timer_def cancel_other [OF ne])
  qed
qed

lemma remove_role_frame:
  "\<exists>s'. remove_role_after_timeout user role remove_result s = Inr s' \<and>
     tasks s' = tasks s \<and> permitted_users s' = permitted_users s \<and>
     user_timeouts s' = (user_timeouts s)(user_id user := None)"
proof (cases remove_result)
  case None
  then show ?thesis by (simp add: remove_role_after_timeout_def Let_def)
next
  case (Some e)
  then show ?thesis by (cases e) (simp_all add: remove_role_after_timeout_def Let_def)
qed

lemma remove_permit_frame:
  "\<exists>s'. remove_permit_after_timeout uid s = Inr s' \<and>
     tasks s' = tasks s \<and> permitted_users s' = permitted_users s - {uid} \<and>
     user_timeouts s' = (user_timeouts s)(uid := None)"
  by (simp add: remove_permit_after_timeout_def Let_def)

lemma fire_not_due:
  "\<not> (k < length (tasks s) \<and> status (tasks s ! k) = Sleeping \<and> wake_at (tasks s ! k) \<le> now s)
   \<Longrightarrow> fire k remove_result s = s"
  by (auto simp: fire_def)

lemma fire_due:
  assumes "k < length (tasks s)" and "status (tasks s ! k) = Sleeping"
    and "wake_at (tasks s ! k) \<le> now s"
  shows "fire k remove_result s =
     (case (case coro (tasks s ! k) of
              Remove_role user role \<Rightarrow>
                remove_role_after_timeout user role remove_result
                  (s\<lparr>tasks := (tasks s)[k := (tasks s ! k)\<lparr>status := Finished\<rparr>]\<rparr>)
            | Remove_permit uid \<Rightarrow>
                remove_permit_after_timeout uid
                  (s\<lparr>tasks := (tasks s)[k := (tasks s ! k)\<lparr>status := Finished\<rparr>]\<rparr>)) of
        Inr s2 \<Rightarrow> s2
      | Inl e \<Rightarrow> s\<lparr>tasks := (tasks s)[k := (tasks s ! k)\<lparr>status := Finished\<rparr>],
                   log := log s @ [Task_exception e]\<rparr>)"
  using assms by (simp add: fire_def Let_def split: sum.splits)

lemma fire_frame:
  assumes "k < length (tasks s)" and "status (tasks s ! k) = Sleeping"
    and "wake_at (tasks s ! k) \<le> now s"
  shows "tasks (fire k remove_result s) = (tasks s)[k := (tasks s ! k)\<lparr>status := Finished\<rparr>] \<and>
     user_timeouts (fire k remove_result s) =
       (user_timeouts s)(task_user (coro (tasks s ! k)) := None) \<and>
     permitted_users s - {task_user (coro (tasks s ! k))} \<subseteq> permitted_users (fire k remove_result s)"
proof (cases "coro (tasks s ! k)")
  case (Remove_role user role)
  obtain s' where s': "remove_role_after_timeout user role remove_result
      (s\<lparr>tasks := (tasks s)[k := (tasks s ! k)\<lparr>status := Finished\<rparr>]\<rparr>) = Inr s'"
    "tasks s' = (tasks s)[k := (tasks s ! k)\<lparr>status := Finished\<rparr>]"
    "permitted_users s' = permitted_users s"
    "user_timeouts s' = (user_timeouts s)(user_id user := None)"
    using remove_role_frame [of user role remove_result
        "s\<lparr>tasks := (tasks s)[k := (tasks s ! k)\<lparr>status := Finished\<rparr>]\<rparr>"]
    by auto
  have "fire k remove_result s = s'"
    by (simp add: fire_due [OF assms] Remove_role s'(1))
  with s'(2-4) Remove_role show ?thesis by auto
next
  case (Remove_permit uid)
  obtain s' where s': "remove_permit_after_timeout uid
      (s\<lparr>tasks := (tasks s)[k := (tasks s ! k)\<lparr>status := Finished\<rparr>]\<rparr>) = Inr s'"
    "tasks s' = (tasks s)[k := (tasks s ! k)\<lparr>status := Finished\<rparr>]"
    "permitted_users s' = permitted_users s - {uid}"
    "user_timeouts s' = (user_timeouts s)(uid := None)"
    using remove_permit_frame [of uid
        "s\<lparr>tasks := (tasks s)[k := (tasks s ! k)\<lparr>status := Finished\<rparr>]\<rparr>"]
    by auto
  have "fire k remove_result s = s'"
    by (simp add: fire_due [OF assms] Remove_permit s'(1))
  with s'(2-4) Remove_permit show ?thesis by auto
qed

lemma holds_timer_fire:
  assumes "holds_timer uid h s"
    and "\<not> (k < length (tasks s) \<and> task_user (coro (tasks s ! k)) = uid)"
  shows "holds_timer uid h (fire k remove_result s)"
proof (cases "k < length (tasks s) \<and> status (tasks s ! k) = Sleeping \<and> wake_at (tasks s ! k) \<le> now s")
  case False
  then have "fire k remove_result s = s" by (rule fire_not_due)
  with assms(1) show ?thesis by simp
next
  case True
  note ht = holds_timerD [OF assms(1)]
  from True assms(2) have other: "task_user (coro (tasks s ! k)) \<noteq> uid" by blast
  with ht(5) have ne: "k \<noteq> h" by blast
  from True have due: "k < length (tasks s)" "status (tasks s ! k) = Sleeping"
    "wake_at (tasks s ! k) \<le> now s" by blast+
  note fr = fire_frame [OF due, of remove_result]
  from fr have fr1: "tasks (fire k remove_result s) = (tasks s)[k := (tasks s ! k)\<lparr>status := Finished\<rparr>]"
    and fr2: "user_timeouts (fire k remove_result s) =
       (user_timeouts s)(task_user (coro (tasks s ! k)) := None)"
    and fr3: "permitted_users s - {task_user (coro (tasks s ! k))} \<subseteq> permitted_users (fire k remove_result s)"
    by blast+
  show ?thesis
  proof (rule holds_timerI)
    from ht(1) other fr3 show "uid \<in> permitted_users (fire k remove_result s)" by blast
    from ht(2) other show "user_timeouts (fire k remove_result s) uid = Some h"
      by (simp add: fr2)
    from ht(3) show "h < length (tasks (fire k remove_result s))" by (simp add: fr1)
    from ne have same: "tasks (fire k remove_result s) ! h = tasks s ! h" by (simp add: fr1)
    from ht(4) show "status (tasks (fire k remove_result s) ! h) = Sleeping" by (simp add: same)
    from ht(5) show "task_user (coro (tasks (fire k remove_result s) ! h)) = uid"
      by (simp add: same)
    from ht(6) show "handles_valid (fire k remove_result s)" by (rule handles_valid_fire)
    fix u assume "user_timeouts (fire k remove_result s) u = Some h"
    then have "user_timeouts s u = Some h" by (simp add: fr2 split: if_splits)
    then show "u = uid" by (rule ht(7))
  qed
qed

lemma cancelled_fire:
  "h < length (tasks s) \<Longrightarrow> status (tasks s ! h) = Cancelled \<Longrightarrow>
   h < length (tasks (fire k remove_result s)) \<and> status (tasks (fire k remove_result s) ! h) = Cancelled"
proof (cases "k < length (tasks s) \<and> status (tasks s ! k) = Sleeping \<and> wake_at (tasks s ! k) \<le> now s")
  case False
  assume "h < length (tasks s)" "status (tasks s ! h) = Cancelled"
  with fire_not_due [OF False] show ?thesis by simp
next
  case True
  assume a: "h < length (tasks s)" "status (tasks s ! h) = Cancelled"
  with True have "k \<noteq> h" by auto
  with a fire_frame [of k s remove_result] True show ?thesis by simp
qed

lemma holds_timer_step:
  assumes "holds_timer uid h s" and "\<not> concerns uid s ev"
  shows "holds_timer uid h (step cfg s ev)"
proof (cases ev)
  case (Whitelist c user duration plan add_result)
  with assms(2) have "user_id user \<noteq> uid" by simp
  with assms(1) Whitelist show ?thesis by (simp add: holds_timer_whitelist)
next
  case (Permit c user duration)
  with assms(2) have "user_id user \<noteq> uid" by simp
  with assms(1) Permit show ?thesis by (simp add: holds_timer_permit)
next
  case (Unpermit c user)
  with assms(2) have "user_id user \<noteq> uid" by simp
  with assms(1) Unpermit show ?thesis by (simp add: holds_timer_unpermit)
next
  case (Tick dt)
  with assms(1) show ?thesis by (simp add: holds_timer_def handles_valid_def)
next
  case (Fire k r)
  with assms(2) have "\<not> (k < length (tasks s) \<and> task_user (coro (tasks s ! k)) = uid)" by simp
  with assms(1) have "holds_timer uid h (fire k r s)" by (rule holds_timer_fire)
  with Fire show ?thesis by simp
qed

lemma holds_timer_run:
  "holds_timer uid h s \<Longrightarrow> undisturbed cfg uid s evs \<Longrightarrow> holds_timer uid h (run cfg s evs)"
proof (induction evs arbitrary: s)
  case Nil
  then show ?case by (simp add: run_def)
next
  case (Cons ev evs)
  from Cons.prems have "holds_timer uid h (step cfg s ev)" by (simp add: holds_timer_step)
  moreover from Cons.prems have "undisturbed cfg uid (step cfg s ev) evs" by simp
  ultimately have "holds_timer uid h (run cfg (step cfg s ev) evs)" by (rule Cons.IH)
  then show ?case by (simp add: run_def)
qed

lemma cancelled_extend:
  assumes "h < length (tasks s)" and "status (tasks s ! h) = Cancelled"
    and "tasks s' = tasks s \<or> (\<exists>t. tasks s' = tasks s @ [t])"
  shows "h < length (tasks s') \<and> status (tasks s' ! h) = Cancelled"
  using assms by (auto simp: nth_append)

lemma cancelled_cancel:
  assumes "h < length (tasks s)" and "status (tasks s ! h) = Cancelled"
  shows "h < length (tasks (cancel k s)) \<and> status (tasks (cancel k s) ! h) = Cancelled"
proof (cases "k = h")
  case True
  with assms show ?thesis by (simp add: cancel_def)
next
  case False
  with assms show ?thesis by (simp add: cancel_other)
qed

lemma cancelled_unpermit:
  assumes "h < length (tasks s)" and "status (tasks s ! h) = Cancelled"
  shows "h < length (tasks (snd (unpermit cfg c user s))) \<and>
    status (tasks (snd (unpermit cfg c user s)) ! h) = Cancelled"
proof (cases "is_admin cfg (author c) \<and> user_id user \<in> permitted_users s")
  case False
  then have "snd (unpermit cfg c user s) = s" by (auto simp: unpermit_def)
  with assms show ?thesis by simp
next
  case True
  show ?thesis
  proof (cases "user_timeouts s (user_id user)")
    case None
    with True assms show ?thesis by (simp add: unpermit_def)
  next
    case (Some k)
    from assms have "h < length (tasks (cancel k (s\<lparr>permitted_users := permitted_users s - {user_id user}\<rparr>))) \<and>
      status (tasks (cancel k (s\<lparr>permitted_users := permitted_users s - {user_id user}\<rparr>)) ! h) = Cancelled"
      by (intro cancelled_cancel) simp_all
    with True Some show ?thesis by (simp add: unpermit_def)
  qed
qed

lemma cancelled_step:
  assumes "h < length (tasks s)" and "status (tasks s ! h) = Cancelled"
  shows "h < length (tasks (step cfg s ev)) \<and> status (tasks (step cfg s ev) ! h) = Cancelled"
proof (cases ev)
  case (Whitelist c user duration plan add_result)
  have "tasks (snd (whitelist cfg c user duration plan add_result s)) = tasks s \<or>
    (\<exists>t. tasks (snd (whitelist cfg c user duration plan add_result s)) = tasks s @ [t])"
    using whitelist_frame [of cfg c user duration plan add_result s] by blast
  from cancelled_extend [OF assms this] Whitelist show ?thesis by simp
next
  case (Permit c user duration)
  have "tasks (snd (permit cfg c user duration s)) = tasks s \<or>
    (\<exists>t. tasks (snd (permit cfg c user duration s)) = tasks s @ [t])"
    using permit_frame [of s cfg c user duration] by blast
  from cancelled_extend [OF assms this] Permit show ?thesis by simp
next
  case (Unpermit c user)
  from cancelled_unpermit [OF assms, of cfg c user] Unpermit show ?thesis by simp
next
  case (Tick dt)
  with assms show ?thesis by simp
next
  case (Fire k r)
  from cancelled_fire [OF assms, of k r] Fire show ?thesis by simp
qed

lemma cancelled_run:
  "h < length (tasks s) \<Longrightarrow> status (tasks s ! h) = Cancelled \<Longrightarrow>
   h < length (tasks (run cfg s evs)) \<and> status (tasks (run cfg s evs) ! h) = Cancelled"
proof (induction evs arbitrary: s)
  case Nil
  then show ?case by (simp add: run_def)
next
  case (Cons ev evs)
  from Cons.prems have "h < length (tasks (step cfg s ev)) \<and>
    status (tasks (step cfg s ev) ! h) = Cancelled" by (rule cancelled_step)
  then have "h < length (tasks (run cfg (step cfg s ev) evs)) \<and>
    status (tasks (run cfg (step cfg s ev) evs) ! h) = Cancelled"
    using Cons.IH by blast
  then show ?case by (simp add: run_def)
qed

lemma unpermit_holding:
  assumes "is_admin cfg (author c)" and "holds_timer (user_id user) h s"
  shows "fst (unpermit cfg c user s) = Permission_Revoked \<and>
    h < length (tasks (snd (unpermit cfg c user s))) \<and>
    status (tasks (snd (unpermit cfg c user s)) ! h) = Cancelled \<and>
    user_id user \<notin> permitted_users (snd (unpermit cfg c user s)) \<and>
    user_timeouts (snd (unpermit cfg c user s)) (user_id user) = None"
proof -
  note ht = holds_timerD [OF assms(2)]
  from ht(3,4) have "tasks (cancel h (s\<lparr>permitted_users := permitted_users s - {user_id user}\<rparr>)) =
      (tasks s)[h := (tasks s ! h)\<lparr>status := Cancelled\<rparr>]"
    "permitted_users (cancel h (s\<lparr>permitted_users := permitted_users s - {user_id user}\<rparr>)) =
      permitted_users s - {user_id user}"
    by (simp_all add: cancel_def)
  with assms(1) ht(1,2,3) show ?thesis by (simp add: unpermit_def)
qed

section \<open>A manual revoke cancels the pending timer\<close>

text \<open>
  C5: in any state a run has reached, let an administrator permit a user for a finite
  duration, let any events follow that do not concern that user (time passing, commands
  on other users, timers of other users), and let an administrator then unpermit the
  user. The task created by the grant was asleep and is now cancelled; whatever events
  come afterwards it stays cancelled, and waking it changes nothing: no backend call, no
  change of the permits, the timeouts or the log.
\<close>

theorem revoke_cancels_timer:
  assumes "is_admin cfg (author c)" and "is_admin cfg (author c')"
    and "parse_duration duration = Some (Seconds d)"
    and "s0 = run cfg initial pre"
    and "s1 = snd (permit cfg c user duration s0)"
    and "undisturbed cfg (user_id user) s1 mid"
    and "s2 = run cfg s1 mid"
    and "s3 = snd (unpermit cfg c' user s2)"
    and "s4 = run cfg s3 after"
  shows "user_timeouts s1 (user_id user) = Some (length (tasks s0)) \<and>
    status (tasks s1 ! length (tasks s0)) = Sleeping \<and>
    fst (unpermit cfg c' user s2) = Permission_Revoked \<and>
    status (tasks s3 ! length (tasks s0)) = Cancelled \<and>
    status (tasks s4 ! length (tasks s0)) = Cancelled \<and>
    fire (length (tasks s0)) remove_result s4 = s4"
proof -
  have "handles_valid s0"
    unfolding assms(4) using handles_valid_initial by (rule handles_valid_run)
  with assms(1,3) have h1: "holds_timer (user_id user) (length (tasks s0)) s1"
    unfolding assms(5) by (rule permit_holds_timer)
  then have h2: "holds_timer (user_id user) (length (tasks s0)) s2"
    unfolding assms(7) using assms(6) by (rule holds_timer_run)
  note up = unpermit_holding [OF assms(2) h2]
  from up have c3: "length (tasks s0) < length (tasks s3)"
    "status (tasks s3 ! length (tasks s0)) = Cancelled"
    unfolding assms(8) by blast+
  from cancelled_run [OF c3, of cfg after]
  have c4: "length (tasks s0) < length (tasks s4)"
    "status (tasks s4 ! length (tasks s0)) = Cancelled"
    unfolding assms(9) by blast+
  from c4(2) have "fire (length (tasks s0)) remove_result s4 = s4"
    by (intro fire_not_due) simp
  with holds_timerD(2,4) [OF h1] up c3(2) c4(2) show ?thesis by blast
qed

theorem revoke_cancels_timer_witness:
  "is_admin cfg0 (author admin0) \<and> parse_duration ''1m'' = Some (Seconds 60) \<and>
   undisturbed cfg0 (user_id alice) (snd (permit cfg0 admin0 alice ''1m'' initial))
     [Tick 30, Permit admin0 bob ''5m''] \<and>
   fst (unpermit cfg0 admin0 alice
     (run cfg0 (snd (permit cfg0 admin0 alice ''1m'' initial))
        [Tick 30, Permit admin0 bob ''5m''])) = Permission_Revoked \<and>
   status (tasks (run cfg0 (snd (unpermit cfg0 admin0 alice
     (run cfg0 (snd (permit cfg0 admin0 alice ''1m'' initial))
        [Tick 30, Permit admin0 bob ''5m''])))
     [Tick 31, Fire 0 None]) ! 0) = Cancelled \<and>
   fire 0 None (run cfg0 (snd (unpermit cfg0 admin0 alice
     (run cfg0 (snd (permit cfg0 admin0 alice ''1m'' initial))
        [Tick 30, Permit admin0 bob ''5m''])))
     [Tick 31, Fire 0 None]) =
   run cfg0 (snd (unpermit cfg0 admin0 alice
     (run cfg0 (snd (permit cfg0 admin0 alice ''1m'' initial))
        [Tick 30, Permit admin0 bob ''5m''])))
     [Tick 31, Fire 0 None]"
proof -
  have a: "is_admin cfg0 (author admin0)" by (simp add: guild_eval)
  have p: "parse_duration ''1m'' = Some (Seconds 60)" by (simp add: parse_eval)
  have s0: "initial = run cfg0 initial []" by (simp add: run_def)
  have l0: "length (tasks initial) = 0" by (simp add: initial_def)
  have u: "undisturbed cfg0 (user_id alice) (snd (permit cfg0 admin0 alice ''1m'' initial))
     [Tick 30, Permit admin0 bob ''5m'']"
    by (simp add: guild_eval)
  note t = revoke_cancels_timer [OF a a p s0 refl u refl refl refl,
      of "[Tick 31, Fire 0 None]" None, unfolded l0]
  from a p u t show ?thesis by blast
qed

end
